theory Spec2Isabelle
  imports Complex_Main
begin

section \<open>Cell content and cell state\<close>

text \<open>
  The three content classes of \<^verbatim>\<open>sapper.cpp\<close> (\<^verbatim>\<open>MineContent\<close>, \<^verbatim>\<open>NumberContent\<close>,
  \<^verbatim>\<open>EmptyContent\<close>) form a closed variant, and so do the three state classes.
  The virtual queries become functions by cases.
\<close>

datatype ICellContent = MineContent | NumberContent int | EmptyContent

fun isMine :: "ICellContent \<Rightarrow> bool" where
  "isMine MineContent = True"
| "isMine (NumberContent n) = False"
| "isMine EmptyContent = False"

fun number :: "ICellContent \<Rightarrow> int" where
  "number MineContent = - 1"
| "number (NumberContent n) = n"
| "number EmptyContent = 0"

fun isEmpty :: "ICellContent \<Rightarrow> bool" where
  "isEmpty MineContent = False"
| "isEmpty (NumberContent n) = (n = 0)"
| "isEmpty EmptyContent = True"

text \<open>\<^verbatim>\<open>CellContentFactory::makeNumber\<close>: a count of zero or less gives the empty content.\<close>

definition makeNumber :: "int \<Rightarrow> ICellContent" where
  "makeNumber n = (if n \<le> 0 then EmptyContent else NumberContent n)"

datatype ICellState = ClosedState | OpenedState | FlaggedState

fun isOpen :: "ICellState \<Rightarrow> bool" where
  "isOpen ClosedState = False"
| "isOpen OpenedState = True"
| "isOpen FlaggedState = False"

fun isFlagged :: "ICellState \<Rightarrow> bool" where
  "isFlagged ClosedState = False"
| "isFlagged OpenedState = False"
| "isFlagged FlaggedState = True"

record Cell =
  content :: ICellContent
  state :: ICellState

text \<open>\<^verbatim>\<open>DefaultCellFactory::makeInitialCell\<close>: empty and closed.\<close>

definition makeInitialCell :: Cell where
  "makeInitialCell = \<lparr>content = EmptyContent, state = ClosedState\<rparr>"

section \<open>Binary32 arithmetic\<close>

text \<open>
  The two \<^verbatim>\<open>float\<close> members of the game are IEEE 754 binary32 numbers, and
  \<^verbatim>\<open>explosionTimer -= dt\<close>, \<^verbatim>\<open>timeElapsed += dt\<close> round their results to binary32
  (round to nearest, ties to even). \<open>Finite s m e\<close> is the number with sign \<open>s\<close>
  (\<open>True\<close> for minus), significand \<open>m\<close> and exponent \<open>e\<close>, of value \<open>m * 2 ^ e\<close>; a
  binary32 number has \<open>0 \<le> m < 2 ^ 24\<close> and \<open>- 149 \<le> e \<le> 104\<close> (\<open>isFloat32\<close>), and the
  operations below produce such numbers (\<open>isFloat32_fadd\<close>). The two zeros and the
  subnormal numbers have the exponent \<open>- 149\<close>. The payload of a NaN is not modelled: no
  operation of the game reads it.
\<close>

datatype float32 = Finite bool int int | Infinity bool | NaN

definition isFloat32 :: "float32 \<Rightarrow> bool" where
  "isFloat32 x =
     (case x of Finite s m e \<Rightarrow> 0 \<le> m \<and> m < 2 ^ 24 \<and> - 149 \<le> e \<and> e \<le> 104
      | Infinity s \<Rightarrow> True | NaN \<Rightarrow> True)"

text \<open>
  Rounding the positive ratio \<open>n / d\<close>. \<open>binade n d\<close> is the largest \<open>e\<close> from 127 down to
  \<open>- 126\<close> with \<open>2 ^ e \<le> n / d\<close>, and \<open>- 126\<close> if there is none; the ratio is then cut to
  a multiple of \<open>2 ^ (e - 23)\<close>, the nearest one, the even one of two equally near; a
  significand that reaches \<open>2 ^ 24\<close> moves to the next exponent, and past the largest
  exponent the result is an infinity.
\<close>

definition scaleNum :: "int \<Rightarrow> int \<Rightarrow> int" where
  "scaleNum e n = n * 2 ^ nat (- e)"

definition scaleDen :: "int \<Rightarrow> int \<Rightarrow> int" where
  "scaleDen e d = d * 2 ^ nat e"

primrec binadeFrom :: "nat \<Rightarrow> int \<Rightarrow> int \<Rightarrow> int \<Rightarrow> int" where
  "binadeFrom 0 e n d = e"
| "binadeFrom (Suc k) e n d =
     (if scaleDen e d \<le> scaleNum e n then e else binadeFrom k (e - 1) n d)"

definition binade :: "int \<Rightarrow> int \<Rightarrow> int" where
  "binade n d = binadeFrom 253 127 n d"

definition nearestEven :: "int \<Rightarrow> int \<Rightarrow> int \<Rightarrow> int" where
  "nearestEven q r2 d =
     (if r2 < d then q else if d < r2 then q + 1 else if even q then q else q + 1)"

definition pack :: "bool \<Rightarrow> int \<Rightarrow> int \<Rightarrow> float32" where
  "pack s r x =
     (if r < 2 ^ 24 then Finite s r x
      else if x < 104 then Finite s (2 ^ 23) (x + 1) else Infinity s)"

definition roundAt :: "bool \<Rightarrow> int \<Rightarrow> int \<Rightarrow> int \<Rightarrow> float32" where
  "roundAt s n d x = pack s (nearestEven (n div d) (2 * (n mod d)) d) x"

definition roundRatio :: "bool \<Rightarrow> int \<Rightarrow> int \<Rightarrow> float32" where
  "roundRatio s n d =
     roundAt s (scaleNum (binade n d - 23) n) (scaleDen (binade n d - 23) d) (binade n d - 23)"

definition signedInt :: "bool \<Rightarrow> int \<Rightarrow> int" where
  "signedInt s m = (if s then - m else m)"

text \<open>
  The sum \<open>v * 2 ^ g\<close> of two finite numbers, exact, then rounded. An exact zero is
  \<open>+0\<close>, except that \<open>-0 + -0\<close> is \<open>-0\<close>.
\<close>

definition roundSum :: "bool \<Rightarrow> int \<Rightarrow> int \<Rightarrow> float32" where
  "roundSum z v g =
     (if v = 0 then Finite z 0 (- 149)
      else roundRatio (v < 0) (\<bar>v\<bar> * 2 ^ nat g) (2 ^ nat (- g)))"

fun fadd :: "float32 \<Rightarrow> float32 \<Rightarrow> float32" where
  "fadd (Finite s m e) (Finite t k f) =
     roundSum (s \<and> t)
       (signedInt s m * 2 ^ nat (e - min e f) + signedInt t k * 2 ^ nat (f - min e f))
       (min e f)"
| "fadd (Finite s m e) (Infinity t) = Infinity t"
| "fadd (Infinity s) (Finite t k f) = Infinity s"
| "fadd (Infinity s) (Infinity t) = (if s = t then Infinity s else NaN)"
| "fadd NaN y = NaN"
| "fadd x NaN = NaN"

fun fneg :: "float32 \<Rightarrow> float32" where
  "fneg (Finite s m e) = Finite (\<not> s) m e"
| "fneg (Infinity s) = Infinity (\<not> s)"
| "fneg NaN = NaN"

definition fsub :: "float32 \<Rightarrow> float32 \<Rightarrow> float32" where
  "fsub x y = fadd x (fneg y)"

text \<open>The comparison \<^verbatim>\<open><\<close>: false as soon as one side is a NaN.\<close>

fun fless :: "float32 \<Rightarrow> float32 \<Rightarrow> bool" where
  "fless (Finite s m e) (Finite t k f) \<longleftrightarrow>
     signedInt s m * 2 ^ nat (e - min e f) < signedInt t k * 2 ^ nat (f - min e f)"
| "fless (Finite s m e) (Infinity t) \<longleftrightarrow> \<not> t"
| "fless (Infinity s) (Finite t k f) \<longleftrightarrow> s"
| "fless (Infinity s) (Infinity t) \<longleftrightarrow> s \<and> \<not> t"
| "fless NaN y \<longleftrightarrow> False"
| "fless x NaN \<longleftrightarrow> False"

text \<open>
  A decimal literal \<open>n / d\<close> (\<open>0 \<le> n\<close>, \<open>0 < d\<close>) read as a \<^verbatim>\<open>float\<close>, and the two literals
  of the game: \<^verbatim>\<open>0.0f\<close>, which is also what the \<^verbatim>\<open>int\<close> 0 of \<^verbatim>\<open>explosionTimer < 0\<close>
  converts to, and \<^verbatim>\<open>0.2f\<close>.
\<close>

definition literal32 :: "int \<Rightarrow> int \<Rightarrow> float32" where
  "literal32 n d = (if n = 0 then Finite False 0 (- 149) else roundRatio False n d)"

definition float_0_0 :: float32 where
  "float_0_0 = literal32 0 10"

definition float_0_2 :: float32 where
  "float_0_2 = literal32 2 10"

section \<open>The game\<close>

text \<open>
  The class \<^verbatim>\<open>Game\<close>. The \<^verbatim>\<open>int\<close> members are modelled as unbounded integers: the only
  arithmetic on them is a coordinate plus or minus one and counters bounded by the number
  of cells, which cannot overflow for a field that fits in memory. The two \<^verbatim>\<open>float\<close>
  members are binary32 numbers. \<^verbatim>\<open>field\<close> is the vector of rows, \<^verbatim>\<open>field[y][x]\<close>.
\<close>

record Game =
  W :: int
  H :: int
  MINES :: int
  gameOver :: bool
  win :: bool
  firstClick :: bool
  explosion :: bool
  explosionTimer :: float32
  timerRunning :: bool
  timeElapsed :: float32
  field :: "Cell list list"

text \<open>
  \<^verbatim>\<open>field[y][x]\<close>, read and written. Indexing a vector outside its size is undefined
  behaviour in the source; \<open>inField\<close> says that the vectors really hold the cell, and the
  entry points below return \<open>None\<close> where the source would index outside them.
\<close>

definition inField :: "Game \<Rightarrow> int \<Rightarrow> int \<Rightarrow> bool" where
  "inField g x y \<longleftrightarrow>
     0 \<le> x \<and> 0 \<le> y \<and> nat y < length (field g) \<and> nat x < length (field g ! nat y)"

definition cellAt :: "Game \<Rightarrow> int \<Rightarrow> int \<Rightarrow> Cell" where
  "cellAt g x y = field g ! nat y ! nat x"

definition setState :: "Game \<Rightarrow> int \<Rightarrow> int \<Rightarrow> ICellState \<Rightarrow> Game" where
  "setState g x y s =
     g\<lparr>field := (field g)[nat y := (field g ! nat y)[nat x := (cellAt g x y)\<lparr>state := s\<rparr>]]\<rparr>"

definition setContent :: "Game \<Rightarrow> int \<Rightarrow> int \<Rightarrow> ICellContent \<Rightarrow> Game" where
  "setContent g x y c =
     g\<lparr>field := (field g)[nat y := (field g ! nat y)[nat x := (cellAt g x y)\<lparr>content := c\<rparr>]]\<rparr>"

text \<open>The bounds test the source writes before it looks at a neighbour.\<close>

definition inRange :: "Game \<Rightarrow> int \<Rightarrow> int \<Rightarrow> bool" where
  "inRange g x y \<longleftrightarrow> x \<ge> 0 \<and> x < W g \<and> y \<ge> 0 \<and> y < H g"

text \<open>
  The positions visited by \<^verbatim>\<open>for (y = 0; y < H; y++) for (x = 0; x < W; x++)\<close>, in that
  order, as pairs \<open>(x, y)\<close>.
\<close>

definition cells :: "Game \<Rightarrow> (int \<times> int) list" where
  "cells g = [(x, y). y \<leftarrow> map int [0..<nat (H g)], x \<leftarrow> map int [0..<nat (W g)]]"

text \<open>
  The offsets visited by \<^verbatim>\<open>for (dy = -1; dy <= 1; dy++) for (dx = -1; dx <= 1; dx++)
  if (!(dx == 0 && dy == 0))\<close>, in that order, as pairs \<open>(dx, dy)\<close>.
\<close>

definition offsets :: "(int \<times> int) list" where
  "offsets = [(dx, dy). dy \<leftarrow> [- 1, 0, 1], dx \<leftarrow> [- 1, 0, 1], \<not> (dx = 0 \<and> dy = 0)]"

text \<open>
  The field has \<open>H\<close> rows of \<open>W\<close> cells: what \<^verbatim>\<open>resetField\<close> builds and every operation
  keeps (\<open>reachable_sound\<close> below).
\<close>

definition wfField :: "Game \<Rightarrow> bool" where
  "wfField g \<longleftrightarrow>
     length (field g) = nat (H g) \<and> list_all (\<lambda>row. length row = nat (W g)) (field g)"

text \<open>
  \<^verbatim>\<open>Game::resetField\<close>. \<^verbatim>\<open>field.resize(H)\<close> with a negative \<open>H\<close>, and
  \<^verbatim>\<open>field[y].reserve(W)\<close> with a negative \<open>W\<close>, ask for more than a vector can hold and
  throw: the model returns \<open>None\<close>.
\<close>

definition resetField :: "Game \<Rightarrow> Game option" where
  "resetField g =
     (if H g < 0 \<or> (0 < H g \<and> W g < 0) then None
      else Some (g\<lparr>field := replicate (nat (H g)) (replicate (nat (W g)) makeInitialCell),
                    gameOver := False, win := False, firstClick := True,
                    explosion := False, explosionTimer := float_0_0,
                    timerRunning := False, timeElapsed := float_0_0\<rparr>))"

text \<open>The constructor \<^verbatim>\<open>Game(w, h, mines, ...)\<close>: the member initialisers, then \<^verbatim>\<open>resetField\<close>.\<close>

definition newGame :: "int \<Rightarrow> int \<Rightarrow> int \<Rightarrow> Game option" where
  "newGame w h mines =
     resetField \<lparr>W = w, H = h, MINES = mines, gameOver = False, win = False,
                 firstClick = True, explosion = False, explosionTimer = float_0_0,
                 timerRunning = False, timeElapsed = float_0_0, field = []\<rparr>"

text \<open>\<^verbatim>\<open>Game::update\<close>.\<close>

definition update :: "Game \<Rightarrow> float32 \<Rightarrow> Game" where
  "update g dt =
     (let g1 = (if explosion g
                then (let g' = g\<lparr>explosionTimer := fsub (explosionTimer g) dt\<rparr>
                      in if fless (explosionTimer g') float_0_0 then g'\<lparr>explosion := False\<rparr>
                         else g')
                else g)
      in if timerRunning g1 \<and> \<not> gameOver g1 \<and> \<not> win g1
         then g1\<lparr>timeElapsed := fadd (timeElapsed g1) dt\<rparr> else g1)"

definition startTimerIfNeeded :: "Game \<Rightarrow> Game" where
  "startTimerIfNeeded g =
     (if \<not> timerRunning g then g\<lparr>timerRunning := True, timeElapsed := float_0_0\<rparr> else g)"

definition stopTimer :: "Game \<Rightarrow> Game" where
  "stopTimer g = g\<lparr>timerRunning := False\<rparr>"

text \<open>\<^verbatim>\<open>Game::countMinesAround\<close>: the in-range neighbours that hold a mine.\<close>

definition countMinesAround :: "Game \<Rightarrow> int \<Rightarrow> int \<Rightarrow> int" where
  "countMinesAround g x y =
     int (length (filter (\<lambda>(dx, dy). let nx = x + dx; ny = y + dy in
                            inRange g nx ny \<and> isMine (content (cellAt g nx ny))) offsets))"

section \<open>Flood fill\<close>

text \<open>
  The number of cells that are not opened: the quantity that bounds the recursion of
  \<^verbatim>\<open>floodFill\<close>, since every recursive call follows the opening of one more cell.
\<close>

definition closedCount :: "Game \<Rightarrow> nat" where
  "closedCount g =
     sum_list (map (\<lambda>row. length (filter (\<lambda>c. \<not> isOpen (state c)) row)) (field g))"

lemma filter_update_less:
  assumes "i < length xs" "P (xs ! i)" "\<not> P v"
  shows "length (filter P (xs[i := v])) < length (filter P xs)"
  using assms
proof (induction xs arbitrary: i)
  case Nil
  then show ?case by simp
next
  case (Cons a xs)
  then show ?case
    by (cases i) (auto simp: less_Suc_eq_le Suc_le_eq)
qed

lemma sum_list_update_less:
  fixes f :: "'a \<Rightarrow> nat"
  assumes "i < length xs" "f v < f (xs ! i)"
  shows "sum_list (map f (xs[i := v])) < sum_list (map f xs)"
  using assms
  by (induction xs arbitrary: i) (auto split: nat.splits)

lemma closedCount_setState_Opened:
  assumes "inField g x y" "\<not> isOpen (state (cellAt g x y))"
  shows "closedCount (setState g x y OpenedState) < closedCount g"
  unfolding closedCount_def setState_def using assms
  by (auto simp: inField_def cellAt_def intro!: sum_list_update_less filter_update_less)

text \<open>
  \<^verbatim>\<open>Game::floodFill\<close>. \<open>floodFillFrom g x y ds\<close> is the run of the two loops of
  \<^verbatim>\<open>floodFill(x, y)\<close> over the offsets \<open>ds\<close> still to visit, on the field \<open>g\<close> the earlier
  iterations have left; the recursive call of the source runs on the field with the
  neighbour opened, and the loops go on with the field that call returns. The content is
  read through the reference \<^verbatim>\<open>c\<close> after the state is written.

  After the bounds test of the source, a read outside the vectors (undefined behaviour in
  the source, impossible when the field has \<open>H\<close> rows of \<open>W\<close> cells) is modelled as a
  neighbour that is skipped.
\<close>

function floodFillFrom :: "Game \<Rightarrow> int \<Rightarrow> int \<Rightarrow> (int \<times> int) list \<Rightarrow> Game" where
  "floodFillFrom g x y [] = g"
| "floodFillFrom g x y ((dx, dy) # ds) =
     (let nx = x + dx; ny = y + dy in
      if nx \<ge> 0 \<and> nx < W g \<and> ny \<ge> 0 \<and> ny < H g \<and> inField g nx ny then
        if \<not> isOpen (state (cellAt g nx ny)) \<and> \<not> isFlagged (state (cellAt g nx ny))
           \<and> \<not> isMine (content (cellAt g nx ny)) then
          floodFillFrom
            (if isEmpty (content (cellAt (setState g nx ny OpenedState) nx ny))
             then floodFillFrom (setState g nx ny OpenedState) nx ny offsets
             else setState g nx ny OpenedState)
            x y ds
        else floodFillFrom g x y ds
      else floodFillFrom g x y ds)"
  by pat_completeness auto

lemma closedCount_floodFillFrom:
  "floodFillFrom_dom (g, x, y, ds) \<Longrightarrow> closedCount (floodFillFrom g x y ds) \<le> closedCount g"
proof (induction g x y ds rule: floodFillFrom.pinduct)
  case (1 g x y)
  then show ?case by (simp add: floodFillFrom.psimps)
next
  case (2 g x y dx dy ds)
  let ?nx = "x + dx" and ?ny = "y + dy"
  let ?g' = "setState g ?nx ?ny OpenedState"
  define rng where "rng \<longleftrightarrow> ?nx \<ge> 0 \<and> ?nx < W g \<and> ?ny \<ge> 0 \<and> ?ny < H g \<and> inField g ?nx ?ny"
  define el where "el \<longleftrightarrow> \<not> isOpen (state (cellAt g ?nx ?ny)) \<and>
    \<not> isFlagged (state (cellAt g ?nx ?ny)) \<and> \<not> isMine (content (cellAt g ?nx ?ny))"
  define mid where "mid = (if isEmpty (content (cellAt ?g' ?nx ?ny))
                           then floodFillFrom ?g' ?nx ?ny offsets else ?g')"
  have eq: "floodFillFrom g x y ((dx, dy) # ds) =
    (if rng then if el then floodFillFrom mid x y ds else floodFillFrom g x y ds
     else floodFillFrom g x y ds)"
    unfolding rng_def el_def mid_def
    by (simp only: floodFillFrom.psimps(2)[OF "2.hyps"] Let_def)
  have skip: "closedCount (floodFillFrom g x y ds) \<le> closedCount g" if "\<not> rng \<or> \<not> el"
    using that "2.IH"(3,4)[OF refl refl] unfolding rng_def el_def by blast
  have go: "closedCount (floodFillFrom mid x y ds) \<le> closedCount g" if "rng" "el"
  proof -
    from that have r: "?nx \<ge> 0 \<and> ?nx < W g \<and> ?ny \<ge> 0 \<and> ?ny < H g \<and> inField g ?nx ?ny"
      and e: "\<not> isOpen (state (cellAt g ?nx ?ny)) \<and>
        \<not> isFlagged (state (cellAt g ?nx ?ny)) \<and> \<not> isMine (content (cellAt g ?nx ?ny))"
      by (simp_all add: rng_def el_def)
    from r e have less: "closedCount ?g' < closedCount g"
      by (intro closedCount_setState_Opened) simp_all
    have "closedCount mid \<le> closedCount ?g'"
      using "2.IH"(1)[OF refl refl r e] by (simp add: mid_def)
    moreover have "closedCount (floodFillFrom mid x y ds) \<le> closedCount mid"
      using "2.IH"(2)[OF refl refl r e] by (simp add: mid_def)
    ultimately show ?thesis using less by simp
  qed
  show ?case unfolding eq using skip go by auto
qed

termination floodFillFrom
proof (relation "inv_image (less_than <*lex*> less_than)
    (\<lambda>(g, x, y, ds). (closedCount g, length ds))", goal_cases)
  case 1
  show ?case by (intro wf_inv_image wf_lex_prod wf_less_than)
next
  case (2 g x y dx dy ds nx ny)
  then show ?case by (simp add: closedCount_setState_Opened)
next
  case (3 g x y dx dy ds nx ny)
  then have less: "closedCount (setState g nx ny OpenedState) < closedCount g"
    by (intro closedCount_setState_Opened) simp_all
  show ?case
  proof (cases "isEmpty (content (cellAt (setState g nx ny OpenedState) nx ny))")
    case True
    with 3 have "floodFillFrom_dom (setState g nx ny OpenedState, nx, ny, offsets)" by simp
    from closedCount_floodFillFrom[OF this] less True show ?thesis by simp
  next
    case False
    with less show ?thesis by simp
  qed
next
  case (4 g x y dx dy ds nx ny)
  show ?case by simp
next
  case (5 g x y dx dy ds nx ny)
  show ?case by simp
qed

definition floodFill :: "Game \<Rightarrow> int \<Rightarrow> int \<Rightarrow> Game" where
  "floodFill g x y = floodFillFrom g x y offsets"

text \<open>
  The same fill with the call stack written out, as the specification allows for an
  implementation: a frame \<open>(x, y, ds)\<close> is an activation \<^verbatim>\<open>floodFill(x, y)\<close> whose loops
  still have the offsets \<open>ds\<close> to visit. A recursive call pushes a frame holding all the
  offsets; the end of the loops pops the frame. The order in which a new activation
  visits its neighbours is the parameter \<open>offs\<close>; with the source's order, \<open>offsets\<close>, the
  stack machine computes what \<open>floodFillFrom\<close> computes.
\<close>

type_synonym frame = "int \<times> int \<times> (int \<times> int) list"

function floodLoop :: "(int \<times> int) list \<Rightarrow> Game \<Rightarrow> frame list \<Rightarrow> Game" where
  "floodLoop offs g [] = g"
| "floodLoop offs g ((x, y, []) # st) = floodLoop offs g st"
| "floodLoop offs g ((x, y, (dx, dy) # ds) # st) =
     (let nx = x + dx; ny = y + dy in
      if nx \<ge> 0 \<and> nx < W g \<and> ny \<ge> 0 \<and> ny < H g \<and> inField g nx ny then
        if \<not> isOpen (state (cellAt g nx ny)) \<and> \<not> isFlagged (state (cellAt g nx ny))
           \<and> \<not> isMine (content (cellAt g nx ny)) then
          if isEmpty (content (cellAt (setState g nx ny OpenedState) nx ny))
          then floodLoop offs (setState g nx ny OpenedState) ((nx, ny, offs) # (x, y, ds) # st)
          else floodLoop offs (setState g nx ny OpenedState) ((x, y, ds) # st)
        else floodLoop offs g ((x, y, ds) # st)
      else floodLoop offs g ((x, y, ds) # st))"
  by pat_completeness auto
termination
  by (relation "inv_image (less_than <*lex*> less_than)
        (\<lambda>(offs, g, st). (closedCount g, sum_list (map (\<lambda>(x, y, ds). Suc (length ds)) st)))")
     (auto simp: closedCount_setState_Opened)

lemma floodLoop_floodFillFrom:
  "floodLoop offsets g ((x, y, ds) # st) = floodLoop offsets (floodFillFrom g x y ds) st"
proof (induction g x y ds arbitrary: st rule: floodFillFrom.induct)
  case (1 g x y)
  show ?case by simp
next
  case (2 g x y dx dy ds)
  let ?nx = "x + dx" and ?ny = "y + dy"
  let ?g' = "setState g ?nx ?ny OpenedState"
  define rng where "rng \<longleftrightarrow> ?nx \<ge> 0 \<and> ?nx < W g \<and> ?ny \<ge> 0 \<and> ?ny < H g \<and> inField g ?nx ?ny"
  define el where "el \<longleftrightarrow> \<not> isOpen (state (cellAt g ?nx ?ny)) \<and>
    \<not> isFlagged (state (cellAt g ?nx ?ny)) \<and> \<not> isMine (content (cellAt g ?nx ?ny))"
  define em where "em \<longleftrightarrow> isEmpty (content (cellAt ?g' ?nx ?ny))"
  have rec: "floodFillFrom g x y ((dx, dy) # ds) =
    (if rng then if el then floodFillFrom (if em then floodFillFrom ?g' ?nx ?ny offsets else ?g') x y ds
                else floodFillFrom g x y ds
     else floodFillFrom g x y ds)"
    unfolding rng_def el_def em_def by (simp only: floodFillFrom.simps Let_def)
  have loop: "floodLoop offsets g ((x, y, (dx, dy) # ds) # st) =
    (if rng then if el then if em then floodLoop offsets ?g' ((?nx, ?ny, offsets) # (x, y, ds) # st)
                            else floodLoop offsets ?g' ((x, y, ds) # st)
                else floodLoop offsets g ((x, y, ds) # st)
     else floodLoop offsets g ((x, y, ds) # st))"
    unfolding rng_def el_def em_def by (simp only: floodLoop.simps Let_def)
  show ?case
  proof (cases "rng \<and> el")
    case False
    then have "\<not> rng \<or> (rng \<and> \<not> el)" by blast
    then have "floodLoop offsets g ((x, y, ds) # st) = floodLoop offsets (floodFillFrom g x y ds) st"
    proof
      assume "\<not> rng"
      then show ?thesis using "2.IH"(4)[OF refl refl, of st] by (simp add: rng_def)
    next
      assume "rng \<and> \<not> el"
      then show ?thesis using "2.IH"(3)[OF refl refl, of st] by (simp add: rng_def el_def)
    qed
    with False show ?thesis unfolding rec loop by auto
  next
    case True
    then have r: "?nx \<ge> 0 \<and> ?nx < W g \<and> ?ny \<ge> 0 \<and> ?ny < H g \<and> inField g ?nx ?ny"
      and e: "\<not> isOpen (state (cellAt g ?nx ?ny)) \<and>
        \<not> isFlagged (state (cellAt g ?nx ?ny)) \<and> \<not> isMine (content (cellAt g ?nx ?ny))"
      by (simp_all add: rng_def el_def)
    show ?thesis
    proof (cases em)
      case em: True
      then have m: "isEmpty (content (cellAt ?g' ?nx ?ny))" by (simp add: em_def)
      have "floodLoop offsets ?g' ((?nx, ?ny, offsets) # (x, y, ds) # st) =
            floodLoop offsets (floodFillFrom ?g' ?nx ?ny offsets) ((x, y, ds) # st)"
        by (rule "2.IH"(1)[OF refl refl r e m])
      also have "\<dots> = floodLoop offsets
            (floodFillFrom (floodFillFrom ?g' ?nx ?ny offsets) x y ds) st"
        using "2.IH"(2)[OF refl refl r e, of st] m by simp
      finally have "floodLoop offsets ?g' ((?nx, ?ny, offsets) # (x, y, ds) # st) =
        floodLoop offsets (floodFillFrom (floodFillFrom ?g' ?nx ?ny offsets) x y ds) st" .
      with True em show ?thesis unfolding rec loop by simp
    next
      case em: False
      then have m: "\<not> isEmpty (content (cellAt ?g' ?nx ?ny))" by (simp add: em_def)
      from "2.IH"(2)[OF refl refl r e, of st] m
      have "floodLoop offsets ?g' ((x, y, ds) # st) =
        floodLoop offsets (floodFillFrom ?g' x y ds) st" by simp
      with True em show ?thesis unfolding rec loop by simp
    qed
  qed
qed

lemma floodFill_loop: "floodFill g x y = floodLoop offsets g [(x, y, offsets)]"
  by (simp add: floodFill_def floodLoop_floodFillFrom)

section \<open>Loss and win\<close>

text \<open>\<^verbatim>\<open>Game::triggerExplosion\<close>.\<close>

definition triggerExplosion :: "Game \<Rightarrow> Game" where
  "triggerExplosion g =
     stopTimer
       ((fold (\<lambda>(xx, yy) g'. setState g' xx yy OpenedState) (cells g)
          (g\<lparr>explosion := True, explosionTimer := float_0_2\<rparr>))\<lparr>gameOver := True\<rparr>)"

text \<open>\<^verbatim>\<open>Game::flagsCount\<close>.\<close>

definition flagsCount :: "Game \<Rightarrow> int" where
  "flagsCount g =
     fold (\<lambda>(x, y) f. if isFlagged (state (cellAt g x y)) then f + 1 else f) (cells g) 0"

text \<open>
  \<^verbatim>\<open>Game::checkWinOpen\<close>: the loops return at the first cell that is neither a mine nor
  opened; when they run to their end the game is won.
\<close>

definition checkWinOpen :: "Game \<Rightarrow> Game" where
  "checkWinOpen g =
     (if list_ex (\<lambda>(x, y). \<not> isMine (content (cellAt g x y)) \<and> \<not> isOpen (state (cellAt g x y)))
           (cells g)
      then g
      else stopTimer (g\<lparr>win := True\<rparr>))"

text \<open>
  The loops of \<^verbatim>\<open>Game::checkWinFlags\<close>: \<open>None\<close> is the early \<^verbatim>\<open>return\<close> at a flag on a cell
  without a mine, \<open>Some flagged\<close> the counter when the loops run to their end.
\<close>

fun flagScan :: "Game \<Rightarrow> (int \<times> int) list \<Rightarrow> int \<Rightarrow> int option" where
  "flagScan g [] flagged = Some flagged"
| "flagScan g ((x, y) # ps) flagged =
     (if isFlagged (state (cellAt g x y))
      then (if \<not> isMine (content (cellAt g x y)) then None
            else flagScan g ps (flagged + 1))
      else flagScan g ps flagged)"

definition checkWinFlags :: "Game \<Rightarrow> Game" where
  "checkWinFlags g =
     (case flagScan g (cells g) 0 of
        None \<Rightarrow> g
      | Some flagged \<Rightarrow> if flagged = MINES g then stopTimer (g\<lparr>win := True\<rparr>) else g)"

definition checkWin :: "Game \<Rightarrow> Game" where
  "checkWin g = (let g' = checkWinOpen g in if \<not> win g' then checkWinFlags g' else g')"

section \<open>Board generation\<close>

text \<open>
  \<^verbatim>\<open>DefaultBoardGenerator::generate\<close>. The values \<^verbatim>\<open>std::rand()\<close> returns after the
  \<^verbatim>\<open>std::srand\<close> of this call are the list \<open>rs\<close> (natural numbers: \<^verbatim>\<open>rand\<close> is never
  negative); each turn of the \<^verbatim>\<open>while\<close> loop takes two of them. The loop has no bound in
  the source: it ends when \<open>MINES\<close> mines are placed. In the model it returns \<open>None\<close> when
  the list is used up before that, and also where the source has no defined behaviour:
  a remainder by zero, or a cell outside the vectors (with a negative \<open>W\<close> or \<open>H\<close> the field
  \<^verbatim>\<open>resetField\<close> builds has no cell at all). \<open>generate_returns\<close> below says for which
  draws the loop ends, and \<open>generate_can_return\<close> that there are such draws when fewer
  than \<open>W * H - 9\<close> mines are asked for.
\<close>

definition clearContent :: "Game \<Rightarrow> Game" where
  "clearContent g = fold (\<lambda>(x, y) g'. setContent g' x y (makeNumber 0)) (cells g) g"

fun placeMines :: "nat list \<Rightarrow> Game \<Rightarrow> int \<Rightarrow> int \<Rightarrow> int \<Rightarrow> Game option" where
  "placeMines (r1 # r2 # rs) g safeX safeY placed =
     (if placed < MINES g then
        (if W g \<le> 0 \<or> H g \<le> 0 then None
         else let x = int r1 mod W g; y = int r2 mod H g in
           if \<not> inField g x y then None
           else if isMine (content (cellAt g x y)) then placeMines rs g safeX safeY placed
           else if \<bar>x - safeX\<bar> \<le> 1 \<and> \<bar>y - safeY\<bar> \<le> 1 then placeMines rs g safeX safeY placed
           else placeMines rs (setContent g x y MineContent) safeX safeY (placed + 1))
      else Some g)"
| "placeMines [r1] g safeX safeY placed = (if placed < MINES g then None else Some g)"
| "placeMines [] g safeX safeY placed = (if placed < MINES g then None else Some g)"

definition computeNumbers :: "Game \<Rightarrow> Game" where
  "computeNumbers g =
     fold (\<lambda>(x, y) g'. if isMine (content (cellAt g' x y)) then g'
                        else setContent g' x y (makeNumber (countMinesAround g' x y)))
       (cells g) g"

definition generate :: "nat list \<Rightarrow> Game \<Rightarrow> int \<Rightarrow> int \<Rightarrow> Game option" where
  "generate rs g safeX safeY =
     map_option computeNumbers (placeMines rs (clearContent g) safeX safeY 0)"

section \<open>Input\<close>

text \<open>
  \<^verbatim>\<open>Game::revealFromState\<close>. \<open>rs\<close> is the random source of the generation this call may
  run. \<^verbatim>\<open>c\<close> is a reference to \<^verbatim>\<open>field[y][x]\<close>, so the tests after the generation read the
  generated content.
\<close>

definition revealFromState :: "nat list \<Rightarrow> Game \<Rightarrow> int \<Rightarrow> int \<Rightarrow> Game option" where
  "revealFromState rs g x y =
     (if gameOver g \<or> win g then Some g
      else if \<not> inField g x y then None
      else if isOpen (state (cellAt g x y)) \<or> isFlagged (state (cellAt g x y)) then Some g
      else
        (case (if firstClick g
               then map_option (\<lambda>g'. startTimerIfNeeded (g'\<lparr>firstClick := False\<rparr>))
                      (generate rs g x y)
               else Some g) of
           None \<Rightarrow> None
         | Some g1 \<Rightarrow>
             (let g2 = setState g1 x y OpenedState in
              if isMine (content (cellAt g2 x y)) then Some (triggerExplosion g2)
              else Some (checkWin (if isEmpty (content (cellAt g2 x y))
                                   then floodFill g2 x y else g2)))))"

text \<open>\<^verbatim>\<open>Game::toggleFlagFromState\<close>.\<close>

definition toggleFlagFromState :: "Game \<Rightarrow> int \<Rightarrow> int \<Rightarrow> Game option" where
  "toggleFlagFromState g x y =
     (if gameOver g \<or> win g then Some g
      else if \<not> inField g x y then None
      else if isOpen (state (cellAt g x y)) then Some g
      else Some (checkWin (if isFlagged (state (cellAt g x y))
                           then setState g x y ClosedState
                           else setState g x y FlaggedState)))"

text \<open>
  \<^verbatim>\<open>Game::leftClickCell\<close> and \<^verbatim>\<open>Game::rightClickCell\<close> dispatch on the state object of
  \<^verbatim>\<open>field[y][x]\<close>: \<^verbatim>\<open>ClosedState\<close> forwards to the game, \<^verbatim>\<open>OpenedState\<close> does nothing,
  \<^verbatim>\<open>FlaggedState\<close> ignores the left button and on the right button writes a closed state
  into the cell itself.
\<close>

definition leftClickCell :: "nat list \<Rightarrow> Game \<Rightarrow> int \<Rightarrow> int \<Rightarrow> Game option" where
  "leftClickCell rs g x y =
     (if \<not> inField g x y then None
      else case state (cellAt g x y) of
             ClosedState \<Rightarrow> revealFromState rs g x y
           | OpenedState \<Rightarrow> Some g
           | FlaggedState \<Rightarrow> Some g)"

definition rightClickCell :: "Game \<Rightarrow> int \<Rightarrow> int \<Rightarrow> Game option" where
  "rightClickCell g x y =
     (if \<not> inField g x y then None
      else case state (cellAt g x y) of
             ClosedState \<Rightarrow> toggleFlagFromState g x y
           | OpenedState \<Rightarrow> Some g
           | FlaggedState \<Rightarrow> Some (setState g x y ClosedState))"

text \<open>
  What the presentation layer can do to a session: a left click (with the random source
  a generation would draw from), a right click, a frame tick, a restart.
\<close>

datatype event = LeftClick "nat list" int int | RightClick int int | Tick float32 | Reset

fun step :: "event \<Rightarrow> Game \<Rightarrow> Game option" where
  "step (LeftClick rs x y) g = leftClickCell rs g x y"
| "step (RightClick x y) g = rightClickCell g x y"
| "step (Tick dt) g = Some (update g dt)"
| "step Reset g = resetField g"

fun run :: "event list \<Rightarrow> Game \<Rightarrow> Game option" where
  "run [] g = Some g"
| "run (e # es) g = (case step e g of None \<Rightarrow> None | Some g' \<Rightarrow> run es g')"

text \<open>The session states reachable from a construction.\<close>

definition reachable :: "Game \<Rightarrow> bool" where
  "reachable g \<longleftrightarrow> (\<exists>w h mines es. \<exists>g0. newGame w h mines = Some g0 \<and> run es g0 = Some g)"

section \<open>Evaluating binary32 arithmetic\<close>

lemma binadeFrom_numeral:
  "binadeFrom (numeral k) e n d =
     (if scaleDen e d \<le> scaleNum e n then e else binadeFrom (pred_numeral k) (e - 1) n d)"
  by (simp add: numeral_eq_Suc)

lemmas float32_eval = literal32_def roundSum_def roundRatio_def roundAt_def pack_def
  binade_def binadeFrom_numeral scaleNum_def scaleDen_def nearestEven_def signedInt_def
  fsub_def

text \<open>The sum and the difference of any two numbers are binary32 numbers.\<close>

lemma binadeFrom_bounds: "e - int k \<le> binadeFrom k e n d \<and> binadeFrom k e n d \<le> e"
proof (induction k arbitrary: e)
  case 0
  then show ?case by simp
next
  case (Suc k)
  from Suc[of "e - 1"] show ?case by auto
qed

lemma binade_bounds: "- 126 \<le> binade n d \<and> binade n d \<le> 127"
  using binadeFrom_bounds[of 127 253 n d] by (simp add: binade_def)

lemma nearestEven_nonneg: "0 \<le> q \<Longrightarrow> 0 \<le> nearestEven q r d"
  by (simp add: nearestEven_def)

lemma isFloat32_roundRatio:
  assumes "0 \<le> n" "0 < d"
  shows "isFloat32 (roundRatio s n d)"
proof -
  let ?x = "binade n d - 23"
  let ?n = "scaleNum ?x n" and ?d = "scaleDen ?x d"
  have x: "- 149 \<le> ?x" "?x \<le> 104" using binade_bounds[of n d] by simp_all
  have "0 \<le> ?n" "0 < ?d" using assms by (simp_all add: scaleNum_def scaleDen_def)
  then have "0 \<le> ?n div ?d" by (simp add: pos_imp_zdiv_nonneg_iff)
  then have "0 \<le> nearestEven (?n div ?d) (2 * (?n mod ?d)) ?d" by (rule nearestEven_nonneg)
  with x show ?thesis
    by (simp add: roundRatio_def roundAt_def pack_def isFloat32_def)
qed

lemma isFloat32_fadd: "isFloat32 (fadd x y)"
proof (cases x)
  case fx: (Finite s m e)
  show ?thesis
  proof (cases y)
    case (Finite t k f)
    have "isFloat32 (roundSum z v g)" for z v g
      using isFloat32_roundRatio[of "\<bar>v\<bar> * 2 ^ nat g" "2 ^ nat (- g)" "v < 0"]
      by (simp add: roundSum_def isFloat32_def)
    with fx Finite show ?thesis by simp
  qed (simp_all add: fx isFloat32_def)
next
  case ix: (Infinity s)
  then show ?thesis by (cases y) (simp_all add: isFloat32_def)
next
  case NaN
  then show ?thesis by (simp add: isFloat32_def)
qed

lemma isFloat32_fsub: "isFloat32 (fsub x y)"
  unfolding fsub_def by (rule isFloat32_fadd)

text \<open>\<^verbatim>\<open>0.0f\<close> is \<open>+0\<close>, and \<^verbatim>\<open>0.2f\<close> is 13421773 / 67108864, a little more than 1 / 5.\<close>

lemma float_0_0_eq [code]: "float_0_0 = Finite False 0 (- 149)"
  by (simp add: float_0_0_def literal32_def)

lemma float_0_2_eq [code]: "float_0_2 = Finite False 13421773 (- 26)"
  by (simp add: float_0_2_def float32_eval)

lemma float_0_2_positive: "fless float_0_0 float_0_2"
  by (simp add: float_0_0_eq float_0_2_eq signedInt_def)

text \<open>
  Some sums and differences: 0.1f + 0.2f is 0.3f; 16777216f + 1f is 16777216f and
  16777216f + 3f is 16777220f (ties go to the even significand); 0.2f - 0.15f - 0.05f is
  below zero; 1f - 1f is \<open>+0\<close>; the largest number added to itself is an infinity.
\<close>

lemma binary32_examples:
  "literal32 1 10 = Finite False 13421773 (- 27)"
  "fadd (literal32 1 10) (literal32 2 10) = literal32 3 10"
  "fadd (literal32 16777216 1) (literal32 1 1) = literal32 16777216 1"
  "fadd (literal32 16777216 1) (literal32 3 1) = literal32 16777220 1"
  "fless (fsub (fsub (literal32 2 10) (literal32 15 100)) (literal32 5 100)) float_0_0"
  "fsub (literal32 1 1) (literal32 1 1) = float_0_0"
  "fadd (Finite False 16777215 104) (Finite False 16777215 104) = Infinity False"
  "fsub (Infinity False) (Infinity False) = NaN"
  "\<not> fless NaN float_0_0"
  by (simp_all add: float_0_0_eq float32_eval)

section \<open>Basic facts about the field\<close>

text \<open>The members of a game other than the field.\<close>

definition scalars :: "Game \<Rightarrow> Game" where
  "scalars g = g\<lparr>field := []\<rparr>"

lemma scalars_eqD:
  assumes "scalars g' = scalars g"
  shows "W g' = W g" "H g' = H g" "MINES g' = MINES g" "gameOver g' = gameOver g"
    "win g' = win g" "firstClick g' = firstClick g" "explosion g' = explosion g"
    "explosionTimer g' = explosionTimer g" "timerRunning g' = timerRunning g"
    "timeElapsed g' = timeElapsed g"
proof -
  have "\<And>f. f (scalars g') = f (scalars g)" using assms by simp
  from this[of W] this[of H] this[of MINES] this[of gameOver] this[of win] this[of firstClick]
    this[of explosion] this[of explosionTimer] this[of timerRunning] this[of timeElapsed]
  show "W g' = W g" "H g' = H g" "MINES g' = MINES g" "gameOver g' = gameOver g"
    "win g' = win g" "firstClick g' = firstClick g" "explosion g' = explosion g"
    "explosionTimer g' = explosionTimer g" "timerRunning g' = timerRunning g"
    "timeElapsed g' = timeElapsed g"
    by (simp_all add: scalars_def)
qed

lemma scalars_field_eq: "scalars g' = scalars g \<Longrightarrow> field g' = field g \<Longrightarrow> g' = g"
  by (cases g, cases g') (simp add: scalars_def)

lemma scalars_setState [simp]: "scalars (setState g x y s) = scalars g"
  by (simp add: scalars_def setState_def)

lemma scalars_setContent [simp]: "scalars (setContent g x y c) = scalars g"
  by (simp add: scalars_def setContent_def)

lemma inField_inRange: "wfField g \<Longrightarrow> inField g x y \<longleftrightarrow> inRange g x y"
  by (auto simp: wfField_def inField_def inRange_def list_all_iff)

lemma int_range_set: "set (map int [0..<nat n]) = {i. 0 \<le> i \<and> i < n}"
proof -
  have "i \<in> int ` {0..<nat n} \<longleftrightarrow> 0 \<le> i \<and> i < n" for i
  proof
    assume "i \<in> int ` {0..<nat n}"
    then show "0 \<le> i \<and> i < n" by auto
  next
    assume "0 \<le> i \<and> i < n"
    then have "nat i \<in> {0..<nat n}" "i = int (nat i)" by auto
    then show "i \<in> int ` {0..<nat n}" by (rule_tac image_eqI)
  qed
  then show ?thesis by auto
qed

lemma cells_set: "set (cells g) = {(x, y). inRange g x y}"
proof -
  have "set (cells g) = {(x, y). x \<in> set (map int [0..<nat (W g)]) \<and> y \<in> set (map int [0..<nat (H g)])}"
    unfolding cells_def by auto
  then show ?thesis
    unfolding int_range_set by (auto simp: inRange_def)
qed

lemma length_nth_update2: "length (xss[i := (xss ! i)[j := v]] ! n) = length (xss ! n)"
  by (cases "i < length xss") (auto simp: nth_list_update list_update_beyond not_less)

lemma wfField_setState [simp]: "wfField (setState g x y s) = wfField g"
  by (simp add: wfField_def setState_def list_all_length length_nth_update2)

lemma wfField_setContent [simp]: "wfField (setContent g x y s) = wfField g"
  by (simp add: wfField_def setContent_def list_all_length length_nth_update2)

lemma inField_setState [simp]: "inField (setState g a b s) x y = inField g x y"
  by (simp add: inField_def setState_def length_nth_update2)

lemma inField_setContent [simp]: "inField (setContent g a b s) x y = inField g x y"
  by (simp add: inField_def setContent_def length_nth_update2)

lemma cellAt_setState:
  assumes "inField g a b" "0 \<le> x" "0 \<le> y"
  shows "cellAt (setState g a b s) x y =
           (if x = a \<and> y = b then (cellAt g a b)\<lparr>state := s\<rparr> else cellAt g x y)"
  using assms by (auto simp: inField_def cellAt_def setState_def nth_list_update)

lemma cellAt_setContent:
  assumes "inField g a b" "0 \<le> x" "0 \<le> y"
  shows "cellAt (setContent g a b c) x y =
           (if x = a \<and> y = b then (cellAt g a b)\<lparr>content := c\<rparr> else cellAt g x y)"
  using assms by (auto simp: inField_def cellAt_def setContent_def nth_list_update)



lemma content_setState [simp]: "content (cellAt (setState g a b s) x y) = content (cellAt g x y)"
proof -
  have "content ((xss[i := (xss ! i)[j := (xss ! i ! j)\<lparr>state := s\<rparr>]]) ! k ! l) = content (xss ! k ! l)"
    for xss :: "Cell list list" and i j k l
    by (cases "i < length xss"; cases "j < length (xss ! i)")
       (auto simp: nth_list_update list_update_beyond not_less)
  then show ?thesis by (simp add: cellAt_def setState_def)
qed

lemma inRange_setState [simp]: "inRange (setState g a b s) x y = inRange g x y"
  by (simp add: inRange_def setState_def)

section \<open>Operations that leave the session flags alone\<close>

lemma scalars_fold:
  assumes "\<And>p g. scalars (f p g) = scalars g"
  shows "scalars (fold f ps g) = scalars g"
  using assms by (induction ps arbitrary: g) simp_all

lemma scalars_floodLoop: "scalars (floodLoop offs g st) = scalars g"
  by (induction offs g st rule: floodLoop.induct) (simp_all add: Let_def)

lemma scalars_floodFill: "scalars (floodFill g x y) = scalars g"
  by (simp add: floodFill_loop scalars_floodLoop)

lemma scalars_clearContent: "scalars (clearContent g) = scalars g"
  unfolding clearContent_def by (rule scalars_fold) (simp split: prod.splits)

lemma scalars_computeNumbers: "scalars (computeNumbers g) = scalars g"
  unfolding computeNumbers_def by (rule scalars_fold) (simp split: prod.splits)

lemma placeMines_step:
  assumes "placed < MINES g" "placeMines (r1 # r2 # rs) g sx sy placed = Some g'"
  defines "x \<equiv> int r1 mod W g" and "y \<equiv> int r2 mod H g"
  shows "0 < W g \<and> 0 < H g \<and> inField g x y \<and>
         (if isMine (content (cellAt g x y)) \<or> (\<bar>x - sx\<bar> \<le> 1 \<and> \<bar>y - sy\<bar> \<le> 1)
          then placeMines rs g sx sy placed = Some g'
          else placeMines rs (setContent g x y MineContent) sx sy (placed + 1) = Some g')"
proof -
  have wh: "0 < W g \<and> 0 < H g"
    using assms(1,2) by (cases "W g \<le> 0 \<or> H g \<le> 0") simp_all
  then have nwh: "\<not> (W g \<le> 0 \<or> H g \<le> 0)" by simp
  have inf: "inField g x y"
    using assms(1,2) nwh unfolding x_def y_def
    by (cases "inField g (int r1 mod W g) (int r2 mod H g)") (simp_all add: Let_def)
  show ?thesis
    using assms(1,2) nwh inf wh unfolding x_def y_def
    by (auto simp add: Let_def simp del: abs_le_iff split: if_splits)
qed

lemma scalars_placeMines:
  "placeMines rs g sx sy placed = Some g' \<Longrightarrow> scalars g' = scalars g"
proof (induction rs g sx sy placed rule: placeMines.induct)
  case (1 r1 r2 rs g safeX safeY placed)
  show ?case
  proof (cases "placed < MINES g")
    case True
    note st = placeMines_step[OF True "1.prems"]
    then have nwh: "\<not> (W g \<le> 0 \<or> H g \<le> 0)" by simp
    show ?thesis
    proof (cases "isMine (content (cellAt g (int r1 mod W g) (int r2 mod H g)))")
      case mine: True
      with st have "placeMines rs g safeX safeY placed = Some g'" by simp
      with "1.IH"(1)[OF True nwh refl refl _ mine] st show ?thesis by simp
    next
      case nomine: False
      show ?thesis
      proof (cases "\<bar>int r1 mod W g - safeX\<bar> \<le> 1 \<and> \<bar>int r2 mod H g - safeY\<bar> \<le> 1")
        case safe: True
        with st have "placeMines rs g safeX safeY placed = Some g'" by simp
        with "1.IH"(2)[OF True nwh refl refl _ nomine safe] st show ?thesis by simp
      next
        case nosafe: False
        with st nomine have "placeMines rs (setContent g (int r1 mod W g) (int r2 mod H g) MineContent) safeX safeY (placed + 1) = Some g'"
          by simp
        with "1.IH"(3)[OF True nwh refl refl _ nomine nosafe] st show ?thesis by simp
      qed
    qed
  next
    case False
    with 1 show ?thesis by simp
  qed
qed (simp_all split: if_splits)

lemma scalars_generate: "generate rs g sx sy = Some g' \<Longrightarrow> scalars g' = scalars g"
  by (auto simp: generate_def scalars_computeNumbers scalars_clearContent dest!: scalars_placeMines)

lemma gameOver_checkWin: "gameOver (checkWin g) = gameOver g"
  by (simp add: checkWin_def checkWinOpen_def checkWinFlags_def stopTimer_def Let_def
      split: option.splits)

lemma win_triggerExplosion: "win (triggerExplosion g) = win g"
proof -
  have "scalars (fold (\<lambda>(xx, yy) g'. setState g' xx yy OpenedState) (cells g)
          (g\<lparr>explosion := True, explosionTimer := float_0_2\<rparr>)) = scalars (g\<lparr>explosion := True, explosionTimer := float_0_2\<rparr>)"
    by (rule scalars_fold) (simp split: prod.splits)
  from scalars_eqD(5)[OF this] show ?thesis
    by (simp add: triggerExplosion_def stopTimer_def)
qed

lemma setState_sel [simp]:
  "W (setState g x y s) = W g" "H (setState g x y s) = H g"
  "MINES (setState g x y s) = MINES g" "gameOver (setState g x y s) = gameOver g"
  "win (setState g x y s) = win g" "firstClick (setState g x y s) = firstClick g"
  "explosion (setState g x y s) = explosion g"
  "explosionTimer (setState g x y s) = explosionTimer g"
  "timerRunning (setState g x y s) = timerRunning g"
  "timeElapsed (setState g x y s) = timeElapsed g"
  by (simp_all add: setState_def)

lemma setContent_sel [simp]:
  "W (setContent g x y c) = W g" "H (setContent g x y c) = H g"
  "MINES (setContent g x y c) = MINES g" "gameOver (setContent g x y c) = gameOver g"
  "win (setContent g x y c) = win g" "firstClick (setContent g x y c) = firstClick g"
  "explosion (setContent g x y c) = explosion g"
  "explosionTimer (setContent g x y c) = explosionTimer g"
  "timerRunning (setContent g x y c) = timerRunning g"
  "timeElapsed (setContent g x y c) = timeElapsed g"
  by (simp_all add: setContent_def)

text \<open>The invariant of the session flags.\<close>

definition consistent :: "Game \<Rightarrow> bool" where
  "consistent g \<longleftrightarrow> \<not> (gameOver g \<and> win g)"

text \<open>
  The part of \<^verbatim>\<open>revealFromState\<close> after the first-click block, as a function of the game
  \<open>g1\<close> that block leaves: open the cell, then lose, or fill and check for a win.
\<close>

definition finishReveal :: "Game \<Rightarrow> int \<Rightarrow> int \<Rightarrow> Game" where
  "finishReveal g1 x y =
     (let g2 = setState g1 x y OpenedState in
      if isMine (content (cellAt g2 x y)) then triggerExplosion g2
      else checkWin (if isEmpty (content (cellAt g2 x y)) then floodFill g2 x y else g2))"

lemma revealFromState_later:
  assumes "\<not> gameOver g" "\<not> win g" "inField g x y" "state (cellAt g x y) = ClosedState"
    "\<not> firstClick g"
  shows "revealFromState rs g x y = Some (finishReveal g x y)"
  using assms by (simp add: revealFromState_def finishReveal_def Let_def)

lemma revealFromState_first:
  assumes "\<not> gameOver g" "\<not> win g" "inField g x y" "state (cellAt g x y) = ClosedState"
    "firstClick g"
  shows "revealFromState rs g x y =
           map_option (\<lambda>gen. finishReveal (startTimerIfNeeded (gen\<lparr>firstClick := False\<rparr>)) x y)
             (generate rs g x y)"
  using assms 
  by (cases "generate rs g x y") (simp_all add: revealFromState_def finishReveal_def Let_def)

lemma revealFromState_absorbed:
  assumes "gameOver g \<or> win g"
  shows "revealFromState rs g x y = Some g"
  using assms by (simp add: revealFromState_def)

lemma consistent_finishReveal:
  assumes "\<not> gameOver g" "\<not> win g"
  shows "consistent (finishReveal g x y)"
  using assms scalars_eqD(4)[OF scalars_floodFill, of "setState g x y OpenedState" x y]
  by (simp add: consistent_def finishReveal_def Let_def win_triggerExplosion gameOver_checkWin)

lemma consistent_revealFromState:
  assumes "consistent g" "revealFromState rs g x y = Some g'"
  shows "consistent g'"
proof (cases "gameOver g \<or> win g")
  case True
  with assms show ?thesis by (simp add: revealFromState_absorbed)
next
  case False
  show ?thesis
  proof (cases "state (cellAt g x y) = ClosedState \<and> inField g x y")
    case False
    with assms \<open>\<not> (gameOver g \<or> win g)\<close> show ?thesis
      by (cases "state (cellAt g x y)") (simp_all add: revealFromState_def split: if_splits)
  next
    case closed: True
    show ?thesis
    proof (cases "firstClick g")
      case True
      with assms(2) False closed obtain gen where
        gen: "generate rs g x y = Some gen" and
        g': "g' = finishReveal (startTimerIfNeeded (gen\<lparr>firstClick := False\<rparr>)) x y"
        by (auto simp: revealFromState_first)
      from scalars_eqD(4,5)[OF scalars_generate[OF gen]] False
      have "\<not> gameOver (startTimerIfNeeded (gen\<lparr>firstClick := False\<rparr>))"
        "\<not> win (startTimerIfNeeded (gen\<lparr>firstClick := False\<rparr>))"
        by (simp_all add: startTimerIfNeeded_def)
      then show ?thesis unfolding g' by (rule consistent_finishReveal)
    next
      case nofirst: False
      with assms(2) False closed have "g' = finishReveal g x y"
        by (simp add: revealFromState_later)
      with consistent_finishReveal[of g x y] False show ?thesis by simp
    qed
  qed
qed

lemma consistent_toggleFlagFromState:
  assumes "consistent g" "toggleFlagFromState g x y = Some g'"
  shows "consistent g'"
proof (cases "gameOver g \<or> win g")
  case True
  with assms show ?thesis by (simp add: toggleFlagFromState_def)
next
  case False
  with assms show ?thesis
    by (auto simp: toggleFlagFromState_def consistent_def gameOver_checkWin split: if_splits)
qed

lemma consistent_leftClickCell:
  assumes "consistent g" "leftClickCell rs g x y = Some g'"
  shows "consistent g'"
proof (cases "state (cellAt g x y)")
  case ClosedState
  with assms show ?thesis
    by (auto simp: leftClickCell_def split: if_splits intro: consistent_revealFromState)
next
  case OpenedState
  with assms show ?thesis by (auto simp: leftClickCell_def split: if_splits)
next
  case FlaggedState
  with assms show ?thesis by (auto simp: leftClickCell_def split: if_splits)
qed

lemma consistent_rightClickCell:
  assumes "consistent g" "rightClickCell g x y = Some g'"
  shows "consistent g'"
proof (cases "state (cellAt g x y)")
  case ClosedState
  with assms show ?thesis
    by (auto simp: rightClickCell_def split: if_splits intro: consistent_toggleFlagFromState)
next
  case OpenedState
  with assms show ?thesis by (auto simp: rightClickCell_def split: if_splits)
next
  case FlaggedState
  with assms show ?thesis by (auto simp: rightClickCell_def consistent_def split: if_splits)
qed

lemma consistent_update: "consistent g \<Longrightarrow> consistent (update g dt)"
  by (simp add: update_def consistent_def Let_def)

lemma consistent_resetField: "resetField g = Some g' \<Longrightarrow> consistent g'"
  by (auto simp: resetField_def consistent_def split: if_splits)

lemma consistent_step:
  assumes "consistent g" "step e g = Some g'"
  shows "consistent g'"
  using assms
  by (cases e)
     (auto intro: consistent_leftClickCell consistent_rightClickCell consistent_update
        consistent_resetField)

lemma consistent_run:
  "consistent g \<Longrightarrow> run es g = Some g' \<Longrightarrow> consistent g'"
  by (induction es arbitrary: g) (auto split: option.splits intro: consistent_step)

section \<open>Flags, the win test and the loss\<close>

lemma inField_nonneg: "inField g x y \<Longrightarrow> 0 \<le> x \<and> 0 \<le> y"
  by (simp add: inField_def)

lemma cellAt_setState_same:
  "inField g x y \<Longrightarrow> cellAt (setState g x y s) x y = (cellAt g x y)\<lparr>state := s\<rparr>"
  by (simp add: cellAt_setState inField_nonneg)

lemma checkWin_cases:
  "checkWin g = g \<or> (win (checkWin g) \<and> checkWin g = g\<lparr>win := True, timerRunning := False\<rparr>)"
  by (auto simp: checkWin_def checkWinOpen_def checkWinFlags_def stopTimer_def Let_def
      split: option.splits)

lemma checkWin_no_win: "\<not> win (checkWin g) \<Longrightarrow> checkWin g = g"
  using checkWin_cases[of g] by auto

lemma setState_restore:
  assumes "inField g x y" "state (cellAt g x y) = s"
  shows "setState (setState g x y s') x y s = g"
proof -
  have "(cellAt g x y)\<lparr>state := s\<rparr> = cellAt g x y"
    unfolding assms(2)[symmetric] by simp
  then have "field (setState (setState g x y s') x y s) = field g"
    using assms(1)
    by (simp add: setState_def cellAt_def inField_def)
  moreover have "scalars (setState (setState g x y s') x y s) = scalars g" by simp
  ultimately show ?thesis by (rule scalars_field_eq[rotated])
qed

lemma cellAt_fold_setState:
  assumes "\<forall>p \<in> set ps. inField g (fst p) (snd p)" "0 \<le> x" "0 \<le> y"
  shows "cellAt (fold (\<lambda>(xx, yy) g'. setState g' xx yy s) ps g) x y =
           (if (x, y) \<in> set ps then (cellAt g x y)\<lparr>state := s\<rparr> else cellAt g x y)"
  using assms
proof (induction ps arbitrary: g)
  case Nil
  then show ?case by simp
next
  case (Cons p ps)
  obtain a b where p: "p = (a, b)" by (cases p)
  from Cons.prems have ab: "inField g a b" by (simp add: p)
  have "\<forall>q \<in> set ps. inField (setState g a b s) (fst q) (snd q)"
    using Cons.prems by simp
  from Cons.IH[OF this Cons.prems(2,3)] show ?case
    using Cons.prems(2,3) ab by (auto simp: p cellAt_setState)
qed

lemma fold_setState_sel:
  "scalars (fold (\<lambda>(xx, yy) g'. setState g' xx yy s) ps g) = scalars g"
  by (rule scalars_fold) (simp split: prod.splits)

lemma wfField_fold_setState:
  "wfField (fold (\<lambda>(xx, yy) g'. setState g' xx yy s) ps g) = wfField g"
  by (induction ps arbitrary: g) (auto split: prod.splits)

lemma triggerExplosion_props:
  assumes "wfField g"
  shows "gameOver (triggerExplosion g)" "\<not> timerRunning (triggerExplosion g)"
    "explosion (triggerExplosion g)" "explosionTimer (triggerExplosion g) = float_0_2"
    "win (triggerExplosion g) = win g"
    "W (triggerExplosion g) = W g" "H (triggerExplosion g) = H g"
    "inRange g x y \<Longrightarrow> state (cellAt (triggerExplosion g) x y) = OpenedState"
proof -
  let ?g0 = "g\<lparr>explosion := True, explosionTimer := float_0_2\<rparr>"
  let ?f = "fold (\<lambda>(xx, yy) g'. setState g' xx yy OpenedState) (cells g) ?g0"
  have te: "triggerExplosion g = ?f\<lparr>gameOver := True, timerRunning := False\<rparr>"
    by (simp add: triggerExplosion_def stopTimer_def)
  note sel = scalars_eqD[OF fold_setState_sel, of OpenedState "cells g" ?g0]
  show "gameOver (triggerExplosion g)" "\<not> timerRunning (triggerExplosion g)"
    by (simp_all add: te)
  show "explosion (triggerExplosion g)" "explosionTimer (triggerExplosion g) = float_0_2"
    "win (triggerExplosion g) = win g" "W (triggerExplosion g) = W g" "H (triggerExplosion g) = H g"
    using sel by (simp_all add: te)
  have wf0: "wfField ?g0" using assms by (simp add: wfField_def)
  have inf: "\<forall>p \<in> set (cells g). inField ?g0 (fst p) (snd p)"
    using inField_inRange[OF wf0] by (auto simp: cells_set inRange_def)
  show "state (cellAt (triggerExplosion g) x y) = OpenedState" if "inRange g x y"
  proof -
    from that have nn: "0 \<le> x" "0 \<le> y" and mem: "(x, y) \<in> set (cells g)"
      by (simp_all add: cells_set inRange_def)
    have "cellAt (triggerExplosion g) x y = cellAt ?f x y"
      by (simp add: te cellAt_def)
    also have "\<dots> = (cellAt ?g0 x y)\<lparr>state := OpenedState\<rparr>"
      using cellAt_fold_setState[OF inf nn, of OpenedState] mem by simp
    finally show ?thesis by simp
  qed
qed

lemma distinct_grid:
  "distinct xs \<Longrightarrow> distinct ys \<Longrightarrow> distinct [(x, y). y \<leftarrow> ys, x \<leftarrow> xs]"
  by (induction ys) (auto simp: distinct_map inj_on_def)

lemma distinct_cells: "distinct (cells g)"
  unfolding cells_def by (rule distinct_grid) (simp_all add: distinct_map)

text \<open>
  The two win conditions in the words of the specification: every cell without a mine is
  opened; the flagged cells are exactly \<open>MINES\<close> many and each of them holds a mine.
\<close>

definition allSafeOpen :: "Game \<Rightarrow> bool" where
  "allSafeOpen g \<longleftrightarrow>
     (\<forall>x y. inRange g x y \<longrightarrow> \<not> isMine (content (cellAt g x y)) \<longrightarrow>
            isOpen (state (cellAt g x y)))"

definition flaggedCells :: "Game \<Rightarrow> (int \<times> int) set" where
  "flaggedCells g = {(x, y). inRange g x y \<and> isFlagged (state (cellAt g x y))}"

definition winByFlags :: "Game \<Rightarrow> bool" where
  "winByFlags g \<longleftrightarrow>
     int (card (flaggedCells g)) = MINES g \<and>
     (\<forall>(x, y) \<in> flaggedCells g. isMine (content (cellAt g x y)))"

lemma flagScan_eq:
  "flagScan g ps n =
     (if \<exists>(x, y) \<in> set ps. isFlagged (state (cellAt g x y)) \<and> \<not> isMine (content (cellAt g x y))
      then None
      else Some (n + int (length (filter (\<lambda>(x, y). isFlagged (state (cellAt g x y))) ps))))"
  by (induction ps arbitrary: n) (auto split: prod.splits)

lemma card_flaggedCells:
  "card (flaggedCells g) = length (filter (\<lambda>(x, y). isFlagged (state (cellAt g x y))) (cells g))"
proof -
  have "flaggedCells g = {p. case p of (x, y) \<Rightarrow> isFlagged (state (cellAt g x y))} \<inter> set (cells g)"
    by (auto simp: flaggedCells_def cells_set)
  then show ?thesis
    using distinct_length_filter[OF distinct_cells, of _ g] by simp
qed

lemma checkWinOpen_eq:
  "checkWinOpen g = (if allSafeOpen g then g\<lparr>win := True, timerRunning := False\<rparr> else g)"
proof -
  have "list_ex (\<lambda>(x, y). \<not> isMine (content (cellAt g x y)) \<and> \<not> isOpen (state (cellAt g x y)))
          (cells g) \<longleftrightarrow> \<not> allSafeOpen g"
    by (auto simp: list_ex_iff cells_set allSafeOpen_def)
  then show ?thesis
    by (simp add: checkWinOpen_def stopTimer_def)
qed

lemma checkWinFlags_eq:
  "checkWinFlags g = (if winByFlags g then g\<lparr>win := True, timerRunning := False\<rparr> else g)"
proof -
  have bad: "(\<exists>(x, y) \<in> set (cells g). isFlagged (state (cellAt g x y)) \<and> \<not> isMine (content (cellAt g x y)))
      \<longleftrightarrow> \<not> (\<forall>(x, y) \<in> flaggedCells g. isMine (content (cellAt g x y)))"
    by (auto simp: cells_set flaggedCells_def)
  show ?thesis
  proof (cases "\<forall>(x, y) \<in> flaggedCells g. isMine (content (cellAt g x y))")
    case True
    with bad have "flagScan g (cells g) 0 = Some (int (card (flaggedCells g)))"
      by (simp add: flagScan_eq card_flaggedCells)
    with True show ?thesis
      by (simp add: checkWinFlags_def winByFlags_def stopTimer_def)
  next
    case False
    with bad have "flagScan g (cells g) 0 = None"
      by (simp add: flagScan_eq)
    moreover from False have "\<not> winByFlags g" by (simp add: winByFlags_def)
    ultimately show ?thesis
      by (simp add: checkWinFlags_def)
  qed
qed

section \<open>What the flood fill opens\<close>

text \<open>
  Positions as pairs. A position can be opened by the fill when it passes the bounds test
  and its cell is closed (neither opened nor flagged) and holds no mine. Two positions are
  adjacent when they differ by one of the eight offsets.
\<close>

definition cellOf :: "Game \<Rightarrow> int \<times> int \<Rightarrow> Cell" where
  "cellOf g p = cellAt g (fst p) (snd p)"

definition passable :: "Game \<Rightarrow> int \<times> int \<Rightarrow> bool" where
  "passable g p \<longleftrightarrow>
     inRange g (fst p) (snd p) \<and> state (cellOf g p) = ClosedState \<and> \<not> isMine (content (cellOf g p))"

definition adjacent :: "int \<times> int \<Rightarrow> int \<times> int \<Rightarrow> bool" where
  "adjacent p q \<longleftrightarrow> \<bar>fst q - fst p\<bar> \<le> 1 \<and> \<bar>snd q - snd p\<bar> \<le> 1 \<and> q \<noteq> p"

text \<open>The positions the frames of a stack still have to visit.\<close>

definition pending :: "frame list \<Rightarrow> (int \<times> int) set" where
  "pending st = (\<Union>(x, y, ds) \<in> set st. (\<lambda>(dx, dy). (x + dx, y + dy)) ` set ds)"

text \<open>
  The cells a fill opens, started with the positions \<open>P\<close> still to visit: those of \<open>P\<close> that
  can be opened, and every neighbour that can be opened of an empty cell already in the
  set. The definition knows nothing of the order of the visits.
\<close>

inductive_set fillFrom :: "Game \<Rightarrow> (int \<times> int) set \<Rightarrow> (int \<times> int) set"
  for g :: Game and P :: "(int \<times> int) set" where
  source: "q \<in> P \<Longrightarrow> passable g q \<Longrightarrow> q \<in> fillFrom g P"
| spread: "p \<in> fillFrom g P \<Longrightarrow> isEmpty (content (cellOf g p)) \<Longrightarrow> adjacent p q \<Longrightarrow>
           passable g q \<Longrightarrow> q \<in> fillFrom g P"

lemma offsets_list:
  "offsets = [(- 1, - 1), (0, - 1), (1, - 1), (- 1, 0), (1, 0), (- 1, 1), (0, 1), (1, 1)]"
  by (simp add: offsets_def)

lemma abs_le_one: "\<bar>d :: int\<bar> \<le> 1 \<longleftrightarrow> d = - 1 \<or> d = 0 \<or> d = 1"
  by arith

lemma adjacent_offsets: "adjacent (x, y) (x + dx, y + dy) \<longleftrightarrow> (dx, dy) \<in> set offsets"
proof -
  have "adjacent (x, y) (x + dx, y + dy) \<longleftrightarrow> \<bar>dx\<bar> \<le> 1 \<and> \<bar>dy\<bar> \<le> 1 \<and> \<not> (dx = 0 \<and> dy = 0)"
    by (simp add: adjacent_def del: abs_le_iff)
  also have "\<dots> \<longleftrightarrow> (dx, dy) \<in> set offsets"
    unfolding abs_le_one offsets_list by (simp del: abs_le_iff) arith
  finally show ?thesis .
qed

lemma adjacent_iff: "adjacent p q \<longleftrightarrow> (fst q - fst p, snd q - snd p) \<in> set offsets"
  using adjacent_offsets[of "fst p" "snd p" "fst q - fst p" "snd q - snd p"] by simp

lemma closed_iff: "state c = ClosedState \<longleftrightarrow> \<not> isOpen (state c) \<and> \<not> isFlagged (state c)"
  by (cases "state c") simp_all

lemma pending_simps [simp]:
  "pending [] = {}"
  "pending ((x, y, []) # st) = pending st"
  "pending ((x, y, (dx, dy) # ds) # st) = insert (x + dx, y + dy) (pending ((x, y, ds) # st))"
  by (simp_all add: pending_def)

lemma pending_full:
  "pending ((x, y, offs) # st) = (\<lambda>(dx, dy). (x + dx, y + dy)) ` set offs \<union> pending st"
  by (simp add: pending_def)

lemma floodLoop_skip:
  assumes "wfField g" "\<not> passable g (x + dx, y + dy)"
  shows "floodLoop offs g ((x, y, (dx, dy) # ds) # st) = floodLoop offs g ((x, y, ds) # st)"
  using assms inField_inRange[OF assms(1), of "x + dx" "y + dy"]
  by (auto simp: floodLoop.simps(3) passable_def cellOf_def closed_iff inRange_def Let_def)

lemma floodLoop_open:
  assumes "wfField g" "passable g (x + dx, y + dy)" "\<not> isEmpty (content (cellOf g (x + dx, y + dy)))"
  shows "floodLoop offs g ((x, y, (dx, dy) # ds) # st) =
           floodLoop offs (setState g (x + dx) (y + dy) OpenedState) ((x, y, ds) # st)"
  using assms inField_inRange[OF assms(1), of "x + dx" "y + dy"]
  by (auto simp: floodLoop.simps(3) passable_def cellOf_def closed_iff inRange_def Let_def)

lemma floodLoop_enter:
  assumes "wfField g" "passable g (x + dx, y + dy)" "isEmpty (content (cellOf g (x + dx, y + dy)))"
  shows "floodLoop offs g ((x, y, (dx, dy) # ds) # st) =
           floodLoop offs (setState g (x + dx) (y + dy) OpenedState)
             ((x + dx, y + dy, offs) # (x, y, ds) # st)"
  using assms inField_inRange[OF assms(1), of "x + dx" "y + dy"]
  by (auto simp: floodLoop.simps(3) passable_def cellOf_def closed_iff inRange_def Let_def)

declare floodLoop.simps(3) [simp del]

text \<open>Induction over the run of the fill on a field of \<open>H\<close> rows of \<open>W\<close> cells.\<close>

lemma floodLoop_cases [consumes 1, case_names Nil Pop Skip Open Enter]:
  assumes wf: "wfField g"
    and Nil: "\<And>g. wfField g \<Longrightarrow> P g []"
    and Pop: "\<And>g x y st. wfField g \<Longrightarrow> P g st \<Longrightarrow> P g ((x, y, []) # st)"
    and Skip: "\<And>g x y dx dy ds st. wfField g \<Longrightarrow> \<not> passable g (x + dx, y + dy) \<Longrightarrow>
                 P g ((x, y, ds) # st) \<Longrightarrow> P g ((x, y, (dx, dy) # ds) # st)"
    and Open: "\<And>g x y dx dy ds st. wfField g \<Longrightarrow> passable g (x + dx, y + dy) \<Longrightarrow>
                 \<not> isEmpty (content (cellOf g (x + dx, y + dy))) \<Longrightarrow>
                 P (setState g (x + dx) (y + dy) OpenedState) ((x, y, ds) # st) \<Longrightarrow>
                 P g ((x, y, (dx, dy) # ds) # st)"
    and Enter: "\<And>g x y dx dy ds st. wfField g \<Longrightarrow> passable g (x + dx, y + dy) \<Longrightarrow>
                 isEmpty (content (cellOf g (x + dx, y + dy))) \<Longrightarrow>
                 P (setState g (x + dx) (y + dy) OpenedState)
                   ((x + dx, y + dy, offs) # (x, y, ds) # st) \<Longrightarrow>
                 P g ((x, y, (dx, dy) # ds) # st)"
  shows "P g st"
proof -
  have "wfField g \<Longrightarrow> o' = offs \<Longrightarrow> P g st" for o'
  proof (induction o' g st rule: floodLoop.induct)
    case (1 o' g)
    then show ?case by (auto intro: Nil)
  next
    case (2 o' g x y st)
    then show ?case by (auto intro: Pop)
  next
    case (3 o' g x y dx dy ds st)
    note wf = \<open>wfField g\<close> and o' = \<open>o' = offs\<close>
    let ?nx = "x + dx" and ?ny = "y + dy"
    let ?g' = "setState g ?nx ?ny OpenedState"
    define rng where
      "rng \<longleftrightarrow> ?nx \<ge> 0 \<and> ?nx < W g \<and> ?ny \<ge> 0 \<and> ?ny < H g \<and> inField g ?nx ?ny"
    define el where "el \<longleftrightarrow> \<not> isOpen (state (cellAt g ?nx ?ny)) \<and>
      \<not> isFlagged (state (cellAt g ?nx ?ny)) \<and> \<not> isMine (content (cellAt g ?nx ?ny))"
    have pass: "passable g (?nx, ?ny) \<longleftrightarrow> rng \<and> el"
      using inField_inRange[OF wf, of ?nx ?ny]
      by (auto simp: passable_def cellOf_def closed_iff inRange_def rng_def el_def)
    have wf': "wfField ?g'" using wf by simp
    show ?case
    proof (cases "passable g (?nx, ?ny)")
      case False
      with pass have "\<not> rng \<or> (rng \<and> \<not> el)" by blast
      then have "P g ((x, y, ds) # st)"
      proof
        assume "\<not> rng"
        then show ?thesis using "3.IH"(4)[OF refl refl _ wf o'] by (simp add: rng_def)
      next
        assume "rng \<and> \<not> el"
        then show ?thesis using "3.IH"(3)[OF refl refl _ _ wf o'] by (simp add: rng_def el_def)
      qed
      with wf False show ?thesis by (rule Skip)
    next
      case True
      with pass have r: "?nx \<ge> 0 \<and> ?nx < W g \<and> ?ny \<ge> 0 \<and> ?ny < H g \<and> inField g ?nx ?ny"
        and e: "\<not> isOpen (state (cellAt g ?nx ?ny)) \<and>
          \<not> isFlagged (state (cellAt g ?nx ?ny)) \<and> \<not> isMine (content (cellAt g ?nx ?ny))"
        by (simp_all add: rng_def el_def)
      show ?thesis
      proof (cases "isEmpty (content (cellOf g (?nx, ?ny)))")
        case em: True
        then have "isEmpty (content (cellAt ?g' ?nx ?ny))" by (simp add: cellOf_def)
        from "3.IH"(1)[OF refl refl r e this wf' o'] wf True em show ?thesis
          unfolding o' by (rule Enter[rotated 3])
      next
        case em: False
        then have "\<not> isEmpty (content (cellAt ?g' ?nx ?ny))" by (simp add: cellOf_def)
        from "3.IH"(2)[OF refl refl r e this wf' o'] wf True em show ?thesis
          by (rule Open[rotated 3])
      qed
    qed
  qed
  with wf show ?thesis by simp
qed

lemma cellOf_setState:
  assumes "inField g a b" "0 \<le> fst p" "0 \<le> snd p"
  shows "cellOf (setState g a b s) p =
           (if p = (a, b) then (cellOf g p)\<lparr>state := s\<rparr> else cellOf g p)"
  using assms by (cases p) (auto simp: cellOf_def cellAt_setState)

lemma passable_inRange: "passable g p \<Longrightarrow> inRange g (fst p) (snd p)"
  by (simp add: passable_def)

lemma passable_closed: "passable g p \<Longrightarrow> state (cellOf g p) = ClosedState"
  by (simp add: passable_def)

lemma passable_setState_Opened:
  assumes "wfField g" "inRange g a b"
  shows "passable (setState g a b OpenedState) p \<longleftrightarrow> passable g p \<and> p \<noteq> (a, b)"
proof (cases "inRange g (fst p) (snd p)")
  case True
  then have nn: "0 \<le> fst p" "0 \<le> snd p" by (simp_all add: inRange_def)
  from assms have "inField g a b" by (simp add: inField_inRange)
  from cellOf_setState[OF this nn, of OpenedState] True show ?thesis
    by (cases p) (auto simp: passable_def cellOf_def)
next
  case False
  then show ?thesis by (simp add: passable_def)
qed

lemma fillFrom_passable: "p \<in> fillFrom g P \<Longrightarrow> passable g p"
  by (induction rule: fillFrom.induct) simp_all

lemma fillFrom_after_open:
  assumes wf: "wfField g" and n: "passable g n" "n \<in> P"
    and P': "P' \<subseteq> P \<union> {q. isEmpty (content (cellOf g n)) \<and> adjacent n q}"
    and p: "p \<in> fillFrom (setState g (fst n) (snd n) OpenedState) P'"
  shows "p \<in> fillFrom g P"
  using p
proof (induction rule: fillFrom.induct)
  case (source q)
  from n(1) have nr: "inRange g (fst n) (snd n)" by (rule passable_inRange)
  from source(2) have pq: "passable g q"
    by (simp add: passable_setState_Opened[OF wf nr])
  from source(1) P' consider "q \<in> P" | "isEmpty (content (cellOf g n))" "adjacent n q" by blast
  then show ?case
  proof cases
    case 1
    then show ?thesis using pq by (rule fillFrom.source)
  next
    case 2
    from n have "n \<in> fillFrom g P" by (simp add: fillFrom.source)
    then show ?thesis using 2 pq by (rule fillFrom.spread)
  qed
next
  case (spread p q)
  from n(1) have nr: "inRange g (fst n) (snd n)" by (rule passable_inRange)
  from spread(4) have pq: "passable g q"
    by (simp add: passable_setState_Opened[OF wf nr])
  from spread(2) have "isEmpty (content (cellOf g p))" by (simp add: cellOf_def)
  with spread(5) show ?case using spread(3) pq by (rule fillFrom.spread)
qed

lemma wfField_floodLoop: "wfField g \<Longrightarrow> wfField (floodLoop offs g st)"
  by (induction g st rule: floodLoop_cases[where offs = offs])
     (simp_all add: floodLoop_skip floodLoop_open floodLoop_enter)

lemma content_floodLoop:
  "wfField g \<Longrightarrow> content (cellAt (floodLoop offs g st) a b) = content (cellAt g a b)"
  by (induction g st rule: floodLoop_cases[where offs = offs])
     (simp_all add: floodLoop_skip floodLoop_open floodLoop_enter)

lemma inRange_floodLoop [simp]: "inRange (floodLoop offs g st) x y = inRange g x y"
  using scalars_eqD(1,2)[OF scalars_floodLoop, of offs g st] by (simp add: inRange_def)

lemma pending_offs:
  assumes "set offs = set offsets"
  shows "pending ((x, y, offs) # st) = {q. adjacent (x, y) q} \<union> pending st"
proof -
  have "(\<lambda>(dx, dy). (x + dx, y + dy)) ` set offs = {q. adjacent (x, y) q}"
  proof (intro set_eqI iffI)
    fix q assume "q \<in> (\<lambda>(dx, dy). (x + dx, y + dy)) ` set offs"
    then obtain dx dy where "(dx, dy) \<in> set offs" "q = (x + dx, y + dy)" by auto
    then show "q \<in> {q. adjacent (x, y) q}" using assms by (simp add: adjacent_offsets)
  next
    fix q assume "q \<in> {q. adjacent (x, y) q}"
    then have "(fst q - x, snd q - y) \<in> set offs" using assms by (simp add: adjacent_iff)
    moreover have "q = (x + (fst q - x), y + (snd q - y))" by simp
    ultimately show "q \<in> (\<lambda>(dx, dy). (x + dx, y + dy)) ` set offs"
      by (metis (mono_tags, lifting) case_prod_conv image_eqI)
  qed
  then show ?thesis by (simp add: pending_full)
qed

lemma floodLoop_sound_step:
  assumes inf: "inField g a b" and nn: "0 \<le> fst p" "0 \<le> snd p"
    and nsrc: "(a, b) \<in> F" and sub: "p \<in> F' \<Longrightarrow> p \<in> F"
    and IH: "state (cellOf r p) = state (cellOf (setState g a b OpenedState) p) \<or>
             (p \<in> F' \<and> state (cellOf r p) = OpenedState)"
  shows "state (cellOf r p) = state (cellOf g p) \<or> (p \<in> F \<and> state (cellOf r p) = OpenedState)"
  using IH
proof (elim disjE conjE)
  assume a: "state (cellOf r p) = state (cellOf (setState g a b OpenedState) p)"
  show ?thesis
  proof (cases "p = (a, b)")
    case True
    with a nsrc cellOf_setState[OF inf nn, of OpenedState] show ?thesis by simp
  next
    case False
    with a cellOf_setState[OF inf nn, of OpenedState] show ?thesis by simp
  qed
next
  assume "p \<in> F'" "state (cellOf r p) = OpenedState"
  with sub show ?thesis by simp
qed

text \<open>Soundness: a cell whose state the fill changes is opened and belongs to the region.\<close>

lemma floodLoop_sound:
  assumes "wfField g" "set offs = set offsets" "inRange g (fst p) (snd p)"
  shows "state (cellOf (floodLoop offs g st) p) = state (cellOf g p) \<or>
         (p \<in> fillFrom g (pending st) \<and> state (cellOf (floodLoop offs g st) p) = OpenedState)"
  using assms(1,3)
proof (induction g st rule: floodLoop_cases[where offs = offs])
  case (Nil g)
  then show ?case by simp
next
  case (Pop g x y st)
  then show ?case by simp
next
  case (Skip g x y dx dy ds st)
  have "fillFrom g (pending ((x, y, ds) # st)) \<subseteq> fillFrom g (pending ((x, y, (dx, dy) # ds) # st))"
    by (rule subsetI, erule fillFrom.induct) (auto intro: fillFrom.intros)
  with Skip show ?case by (auto simp: floodLoop_skip)
next
  case (Open g x y dx dy ds st)
  let ?n = "(x + dx, y + dy)"
  let ?g' = "setState g (x + dx) (y + dy) OpenedState"
  let ?r = "floodLoop offs ?g' ((x, y, ds) # st)"
  have eq: "floodLoop offs g ((x, y, (dx, dy) # ds) # st) = ?r"
    using Open(1-3) by (rule floodLoop_open)
  have inf: "inField g (x + dx) (y + dy)"
    using Open(1,2) by (simp add: inField_inRange passable_def)
  have nn: "0 \<le> fst p" "0 \<le> snd p" using Open.prems by (simp_all add: inRange_def)
  have nsrc: "?n \<in> fillFrom g (pending ((x, y, (dx, dy) # ds) # st))"
    using Open(2) by (auto intro: fillFrom.source)
  have sub: "q \<in> fillFrom ?g' (pending ((x, y, ds) # st)) \<Longrightarrow>
      q \<in> fillFrom g (pending ((x, y, (dx, dy) # ds) # st))" for q
    using fillFrom_after_open[OF Open(1,2), of "pending ((x, y, (dx, dy) # ds) # st)"
        "pending ((x, y, ds) # st)" q] by auto
  from Open.IH Open.prems have
    "state (cellOf ?r p) = state (cellOf ?g' p) \<or>
     (p \<in> fillFrom ?g' (pending ((x, y, ds) # st)) \<and> state (cellOf ?r p) = OpenedState)"
    by simp
  with inf nn nsrc sub[of p] show ?case
    unfolding eq by (rule floodLoop_sound_step)
next
  case (Enter g x y dx dy ds st)
  let ?n = "(x + dx, y + dy)"
  let ?g' = "setState g (x + dx) (y + dy) OpenedState"
  let ?st' = "(x + dx, y + dy, offs) # (x, y, ds) # st"
  let ?r = "floodLoop offs ?g' ?st'"
  have eq: "floodLoop offs g ((x, y, (dx, dy) # ds) # st) = ?r"
    using Enter(1-3) by (rule floodLoop_enter)
  have inf: "inField g (x + dx) (y + dy)"
    using Enter(1,2) by (simp add: inField_inRange passable_def)
  have nn: "0 \<le> fst p" "0 \<le> snd p" using Enter.prems by (simp_all add: inRange_def)
  have nsrc: "?n \<in> fillFrom g (pending ((x, y, (dx, dy) # ds) # st))"
    using Enter(2) by (auto intro: fillFrom.source)
  have P': "pending ?st' \<subseteq> pending ((x, y, (dx, dy) # ds) # st) \<union>
              {q. isEmpty (content (cellOf g ?n)) \<and> adjacent ?n q}"
    using Enter(3) by (auto simp: pending_offs[OF assms(2)])
  have sub: "q \<in> fillFrom ?g' (pending ?st') \<Longrightarrow>
      q \<in> fillFrom g (pending ((x, y, (dx, dy) # ds) # st))" for q
    using fillFrom_after_open[OF Enter(1,2) _ P', of q] by auto
  from Enter.IH Enter.prems have
    "state (cellOf ?r p) = state (cellOf ?g' p) \<or>
     (p \<in> fillFrom ?g' (pending ?st') \<and> state (cellOf ?r p) = OpenedState)"
    by simp
  with inf nn nsrc sub[of p] show ?case
    unfolding eq by (rule floodLoop_sound_step)
qed

lemma floodLoop_keeps_open:
  assumes "wfField g" "set offs = set offsets" "inRange g (fst p) (snd p)"
    "isOpen (state (cellOf g p))"
  shows "isOpen (state (cellOf (floodLoop offs g st) p))"
  using floodLoop_sound[OF assms(1-3), of st] assms(4) by auto

text \<open>
  Completeness, first half: when the fill ends, every pending position that could be
  opened is opened, and every cell the fill opened that is empty has all its neighbours
  that could be opened opened.
\<close>

definition fillClosed :: "Game \<Rightarrow> Game \<Rightarrow> frame list \<Rightarrow> bool" where
  "fillClosed g r st \<longleftrightarrow>
     (\<forall>q \<in> pending st. passable g q \<longrightarrow> isOpen (state (cellOf r q))) \<and>
     (\<forall>c d. inRange g (fst c) (snd c) \<longrightarrow> \<not> isOpen (state (cellOf g c)) \<longrightarrow>
            isOpen (state (cellOf r c)) \<longrightarrow> isEmpty (content (cellOf g c)) \<longrightarrow>
            adjacent c d \<longrightarrow> passable g d \<longrightarrow> isOpen (state (cellOf r d)))"

lemma fillClosed_step:
  assumes wf: "wfField g" and n: "passable g n"
    and g': "g' = setState g (fst n) (snd n) OpenedState"
    and nopen: "isOpen (state (cellOf r n))"
    and pend: "pending st \<subseteq> insert n (pending st')"
    and nbrs: "isEmpty (content (cellOf g n)) \<Longrightarrow> {q. adjacent n q} \<subseteq> pending st'"
    and IH: "fillClosed g' r st'"
  shows "fillClosed g r st"
proof -
  from n have nr: "inRange g (fst n) (snd n)" by (rule passable_inRange)
  then have inf: "inField g (fst n) (snd n)" using wf by (simp add: inField_inRange)
  have pass: "passable g' q \<longleftrightarrow> passable g q \<and> q \<noteq> n" for q
    unfolding g' using passable_setState_Opened[OF wf nr, of q] by simp
  have st: "c \<noteq> n \<Longrightarrow> inRange g (fst c) (snd c) \<Longrightarrow> cellOf g' c = cellOf g c" for c
    unfolding g' using cellOf_setState[OF inf, of c OpenedState] by (simp add: inRange_def)
  have ct: "content (cellOf g' c) = content (cellOf g c)" for c
    unfolding g' by (simp add: cellOf_def)
  from IH have IH1: "\<And>q. q \<in> pending st' \<Longrightarrow> passable g' q \<Longrightarrow> isOpen (state (cellOf r q))"
    and IH2: "\<And>c d. inRange g' (fst c) (snd c) \<Longrightarrow> \<not> isOpen (state (cellOf g' c)) \<Longrightarrow>
            isOpen (state (cellOf r c)) \<Longrightarrow> isEmpty (content (cellOf g' c)) \<Longrightarrow>
            adjacent c d \<Longrightarrow> passable g' d \<Longrightarrow> isOpen (state (cellOf r d))"
    unfolding fillClosed_def by blast+
  have one: "isOpen (state (cellOf r q))" if "q \<in> pending st" "passable g q" for q
  proof (cases "q = n")
    case True
    with nopen show ?thesis by simp
  next
    case False
    with that pend pass[of q] show ?thesis by (auto intro: IH1)
  qed
  have two: "isOpen (state (cellOf r d))"
    if c: "inRange g (fst c) (snd c)" "\<not> isOpen (state (cellOf g c))"
      "isOpen (state (cellOf r c))" "isEmpty (content (cellOf g c))"
      and d: "adjacent c d" "passable g d" for c d
  proof (cases "d = n")
    case True
    with nopen show ?thesis by simp
  next
    case dn: False
    with d have pd: "passable g' d" by (simp add: pass)
    show ?thesis
    proof (cases "c = n")
      case True
      with c(4) d(1) nbrs have "d \<in> pending st'" by auto
      then show ?thesis using pd by (rule IH1)
    next
      case False
      from c(1) have "inRange g' (fst c) (snd c)" by (simp add: g')
      moreover from c(2) False c(1) have "\<not> isOpen (state (cellOf g' c))" by (simp add: st)
      moreover from c(4) have "isEmpty (content (cellOf g' c))" by (simp add: ct)
      ultimately show ?thesis using c(3) d(1) pd by (intro IH2[of c d])
    qed
  qed
  show ?thesis unfolding fillClosed_def using one two by blast
qed

lemma floodLoop_closed:
  assumes "wfField g" "set offs = set offsets"
  shows "fillClosed g (floodLoop offs g st) st"
  using assms(1)
proof (induction g st rule: floodLoop_cases[where offs = offs])
  case (Nil g)
  then show ?case by (simp add: fillClosed_def)
next
  case (Pop g x y st)
  then show ?case by (simp add: fillClosed_def)
next
  case (Skip g x y dx dy ds st)
  then show ?case by (auto simp: fillClosed_def floodLoop_skip)
next
  case (Open g x y dx dy ds st)
  let ?n = "(x + dx, y + dy)"
  let ?g' = "setState g (x + dx) (y + dy) OpenedState"
  have wf': "wfField ?g'" using Open(1) by simp
  have nr: "inRange g (x + dx) (y + dy)" using Open(2) by (simp add: passable_def)
  then have inf: "inField g (x + dx) (y + dy)" using Open(1) by (simp add: inField_inRange)
  have "isOpen (state (cellOf ?g' ?n))"
    using cellOf_setState[OF inf, of ?n OpenedState] nr by (simp add: inRange_def)
  then have nopen: "isOpen (state (cellOf (floodLoop offs ?g' ((x, y, ds) # st)) ?n))"
    using floodLoop_keeps_open[OF wf' assms(2), of ?n] nr by simp
  show ?case
    unfolding floodLoop_open[OF Open(1-3)]
    by (rule fillClosed_step[OF Open(1,2) _ nopen _ _ Open.IH]) (use Open(3) in auto)
next
  case (Enter g x y dx dy ds st)
  let ?n = "(x + dx, y + dy)"
  let ?g' = "setState g (x + dx) (y + dy) OpenedState"
  let ?st' = "(x + dx, y + dy, offs) # (x, y, ds) # st"
  have wf': "wfField ?g'" using Enter(1) by simp
  have nr: "inRange g (x + dx) (y + dy)" using Enter(2) by (simp add: passable_def)
  then have inf: "inField g (x + dx) (y + dy)" using Enter(1) by (simp add: inField_inRange)
  have "isOpen (state (cellOf ?g' ?n))"
    using cellOf_setState[OF inf, of ?n OpenedState] nr by (simp add: inRange_def)
  then have nopen: "isOpen (state (cellOf (floodLoop offs ?g' ?st') ?n))"
    using floodLoop_keeps_open[OF wf' assms(2), of ?n] nr by simp
  show ?case
    unfolding floodLoop_enter[OF Enter(1-3)]
    by (rule fillClosed_step[OF Enter(1,2) _ nopen _ _ Enter.IH])
       (auto simp: pending_offs[OF assms(2)])
qed

text \<open>Completeness: every cell of the region is opened when the fill ends.\<close>

lemma floodLoop_complete:
  assumes "wfField g" "set offs = set offsets" "p \<in> fillFrom g (pending st)"
  shows "isOpen (state (cellOf (floodLoop offs g st) p))"
proof -
  note cl = floodLoop_closed[OF assms(1,2), of st, unfolded fillClosed_def]
  from assms(3) show ?thesis
  proof (induction rule: fillFrom.induct)
    case (source q)
    then show ?case using cl by blast
  next
    case (spread p q)
    from spread(1) have pp: "passable g p" by (rule fillFrom_passable)
    then have "inRange g (fst p) (snd p)" "\<not> isOpen (state (cellOf g p))"
      by (simp_all add: passable_def)
    with spread cl show ?case by blast
  qed
qed

text \<open>The state of every cell after the fill.\<close>

lemma floodLoop_state:
  assumes "wfField g" "set offs = set offsets" "inRange g (fst p) (snd p)"
  shows "state (cellOf (floodLoop offs g st) p) =
           (if p \<in> fillFrom g (pending st) then OpenedState else state (cellOf g p))"
proof (cases "p \<in> fillFrom g (pending st)")
  case True
  from floodLoop_complete[OF assms(1,2) True] fillFrom_passable[OF True]
    floodLoop_sound[OF assms, of st] True
  show ?thesis by (auto simp: passable_def)
next
  case False
  with floodLoop_sound[OF assms, of st] show ?thesis by simp
qed

text \<open>
  The region of a left click on the closed, empty cell \<open>(x, y)\<close> of the game \<open>g\<close>: the cell
  itself, and every cell reached from it by a path of adjacent positions on which every
  cell is closed and without a mine in \<open>g\<close>, and every cell but the last is empty.
\<close>

inductive_set region :: "Game \<Rightarrow> int \<Rightarrow> int \<Rightarrow> (int \<times> int) set"
  for g :: Game and x :: int and y :: int where
  start: "(x, y) \<in> region g x y"
| spread: "p \<in> region g x y \<Longrightarrow> isEmpty (content (cellOf g p)) \<Longrightarrow> adjacent p q \<Longrightarrow>
           passable g q \<Longrightarrow> q \<in> region g x y"

lemma region_fillFrom:
  assumes wf: "wfField g" and xy: "passable g (x, y)" "isEmpty (content (cellOf g (x, y)))"
  shows "region g x y = insert (x, y) (fillFrom (setState g x y OpenedState) {q. adjacent (x, y) q})"
    (is "_ = insert _ (fillFrom ?g2 ?N)")
proof (intro set_eqI iffI)
  from xy(1) have r: "inRange g x y" by (simp add: passable_def)
  have pass: "passable ?g2 q \<longleftrightarrow> passable g q \<and> q \<noteq> (x, y)" for q
    by (rule passable_setState_Opened[OF wf r])
  have ct: "content (cellOf ?g2 c) = content (cellOf g c)" for c
    by (simp add: cellOf_def)
  {
    fix p assume "p \<in> region g x y"
    then show "p \<in> insert (x, y) (fillFrom ?g2 ?N)"
    proof (induction rule: region.induct)
      case start
      then show ?case by simp
    next
      case (spread p q)
      show ?case
      proof (cases "q = (x, y)")
        case True
        then show ?thesis by simp
      next
        case False
        with spread(4) have pq: "passable ?g2 q" by (simp add: pass)
        show ?thesis
        proof (cases "p = (x, y)")
          case True
          with spread(3) have "q \<in> ?N" by simp
          then have "q \<in> fillFrom ?g2 ?N" using pq by (rule fillFrom.source)
          then show ?thesis by simp
        next
          case False
          with spread.IH have "p \<in> fillFrom ?g2 ?N" by simp
          moreover from spread(2) have "isEmpty (content (cellOf ?g2 p))" by (simp add: ct)
          ultimately have "q \<in> fillFrom ?g2 ?N" using spread(3) pq by (rule fillFrom.spread)
          then show ?thesis by simp
        qed
      qed
    qed
  }
  {
    fix p assume "p \<in> insert (x, y) (fillFrom ?g2 ?N)"
    then consider "p = (x, y)" | "p \<in> fillFrom ?g2 ?N" by blast
    then show "p \<in> region g x y"
    proof cases
      case 1
      then show ?thesis by (simp add: region.start)
    next
      case 2
      then show ?thesis
      proof (induction rule: fillFrom.induct)
        case (source q)
        from source(2) have "passable g q" by (simp add: pass)
        with region.start[of x y g] xy(2) source(1) show ?case
          by (auto intro: region.spread)
      next
        case (spread p q)
        from spread(4) have "passable g q" by (simp add: pass)
        moreover from spread(2) have "isEmpty (content (cellOf g p))" by (simp add: ct)
        ultimately show ?case using spread(5) spread(3) by (auto intro: region.spread)
      qed
    qed
  }
qed

lemma region_passable:
  assumes "passable g (x, y)" "p \<in> region g x y"
  shows "passable g p"
  using assms(2,1) by (induction rule: region.induct) simp_all

lemma cellAt_checkWin [simp]: "cellAt (checkWin g) a b = cellAt g a b"
  using checkWin_cases[of g] by (auto simp: cellAt_def)

text \<open>The field after a fill that starts at a closed, empty cell just opened.\<close>

lemma fill_from_click:
  assumes wf: "wfField g" and xy: "passable g (x, y)" "isEmpty (content (cellOf g (x, y)))"
    and offs: "set offs = set offsets" and ab: "inRange g a b"
  shows "cellAt (floodLoop offs (setState g x y OpenedState) [(x, y, offs)]) a b =
           (if (a, b) \<in> region g x y then (cellAt g a b)\<lparr>state := OpenedState\<rparr>
            else cellAt g a b)"
    (is "cellAt ?r a b = _")
proof -
  let ?g2 = "setState g x y OpenedState"
  from xy(1) have r: "inRange g x y" by (simp add: passable_def)
  then have inf: "inField g x y" using wf by (simp add: inField_inRange)
  have wf2: "wfField ?g2" using wf by simp
  have pend: "pending [(x, y, offs)] = {q. adjacent (x, y) q}"
    by (simp add: pending_offs[OF offs])
  have reg: "region g x y = insert (x, y) (fillFrom ?g2 {q. adjacent (x, y) q})"
    by (rule region_fillFrom[OF wf xy])
  have nn: "0 \<le> fst (a, b)" "0 \<le> snd (a, b)" using ab by (simp_all add: inRange_def)
  have c: "content (cellAt ?r a b) = content (cellAt g a b)"
    by (simp add: content_floodLoop[OF wf2])
  have "state (cellOf ?r (a, b)) =
          (if (a, b) \<in> fillFrom ?g2 {q. adjacent (x, y) q} then OpenedState
           else state (cellOf ?g2 (a, b)))"
    using floodLoop_state[OF wf2 offs, of "(a, b)" "[(x, y, offs)]"] ab by (simp add: pend)
  then have s: "state (cellAt ?r a b) =
          (if (a, b) \<in> region g x y then OpenedState else state (cellAt g a b))"
    using cellOf_setState[OF inf nn, of OpenedState] by (auto simp: reg cellOf_def)
  show ?thesis by (rule Cell.equality) (simp_all add: c s)
qed

section \<open>What the generation builds\<close>

lemma state_setContent [simp]: "state (cellAt (setContent g a b c) x y) = state (cellAt g x y)"
proof -
  have "state ((xss[i := (xss ! i)[j := (xss ! i ! j)\<lparr>content := c\<rparr>]]) ! k ! l) = state (xss ! k ! l)"
    for xss :: "Cell list list" and i j k l
    by (cases "i < length xss"; cases "j < length (xss ! i)")
       (auto simp: nth_list_update list_update_beyond not_less)
  then show ?thesis by (simp add: cellAt_def setContent_def)
qed

lemma inRange_setContent [simp]: "inRange (setContent g a b c) x y = inRange g x y"
  by (simp add: inRange_def)

lemma content_fold_setContent:
  assumes "\<forall>p \<in> set ps. inField g (fst p) (snd p)" "0 \<le> x" "0 \<le> y"
  shows "content (cellAt (fold (\<lambda>(xx, yy) g'. setContent g' xx yy c) ps g) x y) =
           (if (x, y) \<in> set ps then c else content (cellAt g x y))"
  using assms
proof (induction ps arbitrary: g)
  case Nil
  then show ?case by simp
next
  case (Cons p ps)
  obtain a b where p: "p = (a, b)" by (cases p)
  from Cons.prems have ab: "inField g a b" by (simp add: p)
  have "\<forall>q \<in> set ps. inField (setContent g a b c) (fst q) (snd q)"
    using Cons.prems by simp
  from Cons.IH[OF this Cons.prems(2,3)] show ?case
    using Cons.prems(2,3) ab by (auto simp: p cellAt_setContent)
qed

lemma state_fold_setContent:
  "state (cellAt (fold (\<lambda>(xx, yy) g'. setContent g' xx yy c) ps g) x y) = state (cellAt g x y)"
  by (induction ps arbitrary: g) (auto split: prod.splits)

lemma wfField_fold_setContent:
  "wfField (fold (\<lambda>(xx, yy) g'. setContent g' xx yy c) ps g) = wfField g"
  by (induction ps arbitrary: g) (auto split: prod.splits)

text \<open>\<open>clearContent\<close> empties every cell of the board and touches nothing else.\<close>

lemma clearContent_props:
  "scalars (clearContent g) = scalars g"
  "wfField (clearContent g) = wfField g"
  "state (cellAt (clearContent g) x y) = state (cellAt g x y)"
  "wfField g \<Longrightarrow> inRange g x y \<Longrightarrow> content (cellAt (clearContent g) x y) = EmptyContent"
proof -
  show "scalars (clearContent g) = scalars g" by (rule scalars_clearContent)
  show "wfField (clearContent g) = wfField g"
    unfolding clearContent_def by (rule wfField_fold_setContent)
  show "state (cellAt (clearContent g) x y) = state (cellAt g x y)"
    unfolding clearContent_def by (rule state_fold_setContent)
  show "content (cellAt (clearContent g) x y) = EmptyContent" if "wfField g" "inRange g x y"
  proof -
    have inf: "\<forall>p \<in> set (cells g). inField g (fst p) (snd p)"
      using inField_inRange[OF that(1)] by (auto simp: cells_set)
    from that(2) have "0 \<le> x" "0 \<le> y" "(x, y) \<in> set (cells g)"
      by (simp_all add: cells_set inRange_def)
    with content_fold_setContent[OF inf, of x y "makeNumber 0"] show ?thesis
      by (simp add: clearContent_def makeNumber_def)
  qed
qed

text \<open>The positions that hold a mine.\<close>

definition minePositions :: "Game \<Rightarrow> (int \<times> int) set" where
  "minePositions g = {(x, y). inRange g x y \<and> isMine (content (cellAt g x y))}"

lemma finite_minePositions: "finite (minePositions g)"
proof -
  have "minePositions g \<subseteq> set (cells g)" by (auto simp: minePositions_def cells_set)
  then show ?thesis by (rule finite_subset) simp
qed

lemma minePositions_place:
  assumes "inField g x y" "inRange g x y"
  shows "minePositions (setContent g x y MineContent) = insert (x, y) (minePositions g)"
proof -
  have "isMine (content (cellAt (setContent g x y MineContent) a b)) \<longleftrightarrow>
          (a, b) = (x, y) \<or> isMine (content (cellAt g a b))" if "inRange g a b" for a b
    using that cellAt_setContent[OF assms(1), of a b MineContent] by (auto simp: inRange_def)
  with assms(2) show ?thesis by (auto simp: minePositions_def)
qed

text \<open>Induction over the run of the placement loop, for the runs that end.\<close>

lemma placeMines_cases [consumes 1, case_names Done Place]:
  assumes run: "placeMines rs g sx sy placed = Some g'"
    and Done: "\<And>g placed. \<not> placed < MINES g \<Longrightarrow> P g placed g"
    and Place: "\<And>g placed x y g'. placed < MINES g \<Longrightarrow> inField g x y \<Longrightarrow>
                  0 \<le> x \<Longrightarrow> x < W g \<Longrightarrow> 0 \<le> y \<Longrightarrow> y < H g \<Longrightarrow>
                  \<not> isMine (content (cellAt g x y)) \<Longrightarrow>
                  \<not> (\<bar>x - sx\<bar> \<le> 1 \<and> \<bar>y - sy\<bar> \<le> 1) \<Longrightarrow>
                  P (setContent g x y MineContent) (placed + 1) g' \<Longrightarrow> P g placed g'"
  shows "P g placed g'"
proof -
  have "placeMines rs g safeX safeY placed = Some g' \<Longrightarrow> safeX = sx \<Longrightarrow> safeY = sy \<Longrightarrow>
          P g placed g'" for safeX safeY
proof (induction rs g safeX safeY placed rule: placeMines.induct)
  case (1 r1 r2 rs g safeX safeY placed)
  note sxy = \<open>safeX = sx\<close> \<open>safeY = sy\<close>
  show ?case
  proof (cases "placed < MINES g")
    case True
    note st = placeMines_step[OF True "1.prems"(1)]
    then have nwh: "\<not> (W g \<le> 0 \<or> H g \<le> 0)" by simp
    let ?x = "int r1 mod W g" and ?y = "int r2 mod H g"
    from st have rng: "0 \<le> ?x" "?x < W g" "0 \<le> ?y" "?y < H g" by simp_all
    show ?thesis
    proof (cases "isMine (content (cellAt g ?x ?y))")
      case mine: True
      with st have "placeMines rs g safeX safeY placed = Some g'" by simp
      with "1.IH"(1)[OF True nwh refl refl _ mine] st sxy show ?thesis by simp
    next
      case nomine: False
      show ?thesis
      proof (cases "\<bar>?x - safeX\<bar> \<le> 1 \<and> \<bar>?y - safeY\<bar> \<le> 1")
        case safe: True
        with st have "placeMines rs g safeX safeY placed = Some g'" by simp
        with "1.IH"(2)[OF True nwh refl refl _ nomine safe] st sxy show ?thesis by simp
      next
        case nosafe: False
        with st nomine have "placeMines rs (setContent g ?x ?y MineContent) safeX safeY (placed + 1) = Some g'"
          by simp
        with "1.IH"(3)[OF True nwh refl refl _ nomine nosafe] st sxy
        have "P (setContent g ?x ?y MineContent) (placed + 1) g'" by simp
        with True st rng nomine nosafe sxy show ?thesis
          by (intro Place[of placed g ?x ?y g']) simp_all
      qed
    qed
  next
    case False
    with 1 show ?thesis by (auto intro: Done)
  qed
next
  case (2 r1 g safeX safeY placed)
  then show ?case by (auto split: if_splits intro: Done)
next
  case (3 g safeX safeY placed)
  then show ?case by (auto split: if_splits intro: Done)
qed
  with run show ?thesis by simp
qed

lemma placeMines_wf:
  "placeMines rs g sx sy placed = Some g' \<Longrightarrow> wfField g \<Longrightarrow> wfField g'"
  by (induction rule: placeMines_cases) simp_all

lemma placeMines_state:
  "placeMines rs g sx sy placed = Some g' \<Longrightarrow> state (cellAt g' a b) = state (cellAt g a b)"
  by (induction rule: placeMines_cases) simp_all

text \<open>A mine the loop places lies outside the safe zone.\<close>

lemma placeMines_safe:
  assumes "placeMines rs g sx sy placed = Some g'" "0 \<le> a" "0 \<le> b"
    "isMine (content (cellAt g' a b))"
  shows "isMine (content (cellAt g a b)) \<or> \<not> (\<bar>a - sx\<bar> \<le> 1 \<and> \<bar>b - sy\<bar> \<le> 1)"
  using assms
proof (induction rule: placeMines_cases)
  case (Done g placed)
  then show ?case by simp
next
  case (Place g placed x y g')
  from Place.IH[OF Place.prems] cellAt_setContent[OF Place(2) Place.prems(1,2), of MineContent]
    Place(8)
  show ?case by (auto split: if_splits)
qed

text \<open>The loop ends with \<open>MINES\<close> mines when it starts below that number.\<close>

lemma placeMines_count:
  assumes "placeMines rs g sx sy placed = Some g'" "placed \<le> MINES g"
  shows "int (card (minePositions g')) = int (card (minePositions g)) + (MINES g - placed)"
  using assms
proof (induction rule: placeMines_cases)
  case (Done g placed)
  then show ?case by simp
next
  case (Place g placed x y g')
  from Place(3-6) have r: "inRange g x y" by (simp add: inRange_def)
  from Place(7) have "(x, y) \<notin> minePositions g" by (simp add: minePositions_def)
  then have "card (minePositions (setContent g x y MineContent)) = Suc (card (minePositions g))"
    by (simp add: minePositions_place[OF Place(2) r] finite_minePositions)
  with Place.IH Place(1) show ?case by simp
qed

lemma isMine_makeNumber [simp]: "\<not> isMine (makeNumber n)"
  by (simp add: makeNumber_def)

lemma number_makeNumber: "0 \<le> n \<Longrightarrow> number (makeNumber n) = n"
  by (simp add: makeNumber_def)

text \<open>\<open>countMinesAround\<close> reads the bounds and the mines of the cells in range, nothing else.\<close>

lemma countMinesAround_cong:
  assumes "W g' = W g" "H g' = H g"
    "\<And>c d. inRange g c d \<Longrightarrow> isMine (content (cellAt g' c d)) = isMine (content (cellAt g c d))"
  shows "countMinesAround g' x y = countMinesAround g x y"
proof -
  have "inRange g' c d = inRange g c d" for c d using assms(1,2) by (simp add: inRange_def)
  then have "(inRange g' c d \<and> isMine (content (cellAt g' c d))) =
        (inRange g c d \<and> isMine (content (cellAt g c d)))" for c d
    using assms(3) by auto
  then show ?thesis by (simp add: countMinesAround_def Let_def)
qed

text \<open>One turn of the loops that write the numbers.\<close>

definition numberStep :: "int \<times> int \<Rightarrow> Game \<Rightarrow> Game" where
  "numberStep = (\<lambda>(x, y) g'. if isMine (content (cellAt g' x y)) then g'
                        else setContent g' x y (makeNumber (countMinesAround g' x y)))"

lemma numberStep_props:
  assumes "wfField g" "inRange g (fst p) (snd p)"
  shows "wfField (numberStep p g)" "scalars (numberStep p g) = scalars g"
    "state (cellAt (numberStep p g) a b) = state (cellAt g a b)"
    "inRange g a b \<Longrightarrow> content (cellAt (numberStep p g) a b) =
       (if (a, b) = p \<and> \<not> isMine (content (cellAt g a b))
        then makeNumber (countMinesAround g a b) else content (cellAt g a b))"
proof -
  obtain x y where p: "p = (x, y)" by (cases p)
  from assms have inf: "inField g x y" by (simp add: p inField_inRange)
  show "wfField (numberStep p g)" "scalars (numberStep p g) = scalars g"
    "state (cellAt (numberStep p g) a b) = state (cellAt g a b)"
    using assms(1) by (simp_all add: numberStep_def p)
  show "content (cellAt (numberStep p g) a b) =
       (if (a, b) = p \<and> \<not> isMine (content (cellAt g a b))
        then makeNumber (countMinesAround g a b) else content (cellAt g a b))" if "inRange g a b"
    using that cellAt_setContent[OF inf, of a b] by (auto simp: numberStep_def p inRange_def)
qed

lemma fold_numberStep:
  assumes "wfField g" "\<forall>p \<in> set ps. inRange g (fst p) (snd p)"
  shows "wfField (fold numberStep ps g) \<and> scalars (fold numberStep ps g) = scalars g \<and>
         (\<forall>a b. state (cellAt (fold numberStep ps g) a b) = state (cellAt g a b)) \<and>
         (\<forall>a b. inRange g a b \<longrightarrow> content (cellAt (fold numberStep ps g) a b) =
            (if (a, b) \<in> set ps \<and> \<not> isMine (content (cellAt g a b))
             then makeNumber (countMinesAround g a b) else content (cellAt g a b)))"
  using assms
proof (induction ps arbitrary: g)
  case Nil
  then show ?case by simp
next
  case (Cons p ps)
  let ?g1 = "numberStep p g"
  from Cons.prems have pr: "inRange g (fst p) (snd p)" by simp
  note st = numberStep_props[OF Cons.prems(1) pr]
  have wh: "W ?g1 = W g" "H ?g1 = H g" using scalars_eqD(1,2)[OF st(2)] by simp_all
  then have rng: "inRange ?g1 a b = inRange g a b" for a b by (simp add: inRange_def)
  have mines: "isMine (content (cellAt ?g1 c d)) = isMine (content (cellAt g c d))"
    if "inRange g c d" for c d
    using st(4)[OF that] by simp
  have cnt: "countMinesAround ?g1 a b = countMinesAround g a b" for a b
    by (rule countMinesAround_cong[OF wh mines])
  have "\<forall>q \<in> set ps. inRange ?g1 (fst q) (snd q)" using Cons.prems(2) by (simp add: rng)
  from Cons.IH[OF st(1) this] show ?case
    using st(2,3) by (auto simp: rng cnt mines st(4))
qed

lemma computeNumbers_fold: "computeNumbers g = fold numberStep (cells g) g"
  by (simp add: computeNumbers_def numberStep_def)

lemma computeNumbers_props:
  assumes "wfField g"
  shows "wfField (computeNumbers g)"
    "state (cellAt (computeNumbers g) a b) = state (cellAt g a b)"
    "inRange g a b \<Longrightarrow> content (cellAt (computeNumbers g) a b) =
       (if isMine (content (cellAt g a b)) then content (cellAt g a b)
        else makeNumber (countMinesAround g a b))"
proof -
  have "\<forall>p \<in> set (cells g). inRange g (fst p) (snd p)" by (auto simp: cells_set)
  note f = fold_numberStep[OF assms this, folded computeNumbers_fold]
  from f show "wfField (computeNumbers g)"
    "state (cellAt (computeNumbers g) a b) = state (cellAt g a b)" by simp_all
  show "content (cellAt (computeNumbers g) a b) =
       (if isMine (content (cellAt g a b)) then content (cellAt g a b)
        else makeNumber (countMinesAround g a b))" if "inRange g a b"
    using f that by (simp add: cells_set)
qed

text \<open>The mines among the neighbours of a position, as a set: the brute-force count.\<close>

definition neighbourMines :: "Game \<Rightarrow> int \<times> int \<Rightarrow> (int \<times> int) set" where
  "neighbourMines g p = {q. adjacent p q \<and> q \<in> minePositions g}"

lemma distinct_offsets: "distinct offsets"
  by (simp add: offsets_list)

lemma countMinesAround_card: "countMinesAround g x y = int (card (neighbourMines g (x, y)))"
proof -
  let ?Q = "\<lambda>(dx, dy). inRange g (x + dx) (y + dy) \<and> isMine (content (cellAt g (x + dx) (y + dy)))"
  let ?f = "\<lambda>(dx, dy). (x + dx, y + dy)"
  have inj: "inj_on ?f A" for A :: "(int \<times> int) set" by (auto simp: inj_on_def)
  have "neighbourMines g (x, y) = ?f ` {d \<in> set offsets. ?Q d}"
  proof (intro set_eqI iffI)
    fix q assume "q \<in> neighbourMines g (x, y)"
    then have a: "adjacent (x, y) q" and m: "q \<in> minePositions g"
      by (simp_all add: neighbourMines_def)
    let ?d = "(fst q - x, snd q - y)"
    from a have "?d \<in> set offsets" by (simp add: adjacent_iff)
    moreover from m have "?Q ?d" by (cases q) (simp add: minePositions_def)
    moreover have "q = ?f ?d" by simp
    ultimately show "q \<in> ?f ` {d \<in> set offsets. ?Q d}" by blast
  next
    fix q assume "q \<in> ?f ` {d \<in> set offsets. ?Q d}"
    then obtain dx dy where "(dx, dy) \<in> set offsets" "?Q (dx, dy)" "q = (x + dx, y + dy)"
      by auto
    then show "q \<in> neighbourMines g (x, y)"
      by (simp add: neighbourMines_def minePositions_def adjacent_offsets)
  qed
  then have "card (neighbourMines g (x, y)) = card {d \<in> set offsets. ?Q d}"
    by (simp add: card_image[OF inj])
  also have "\<dots> = length (filter ?Q offsets)"
    using distinct_length_filter[OF distinct_offsets, of ?Q] by (simp add: Int_def conj_commute)
  finally show ?thesis
    by (simp add: countMinesAround_def Let_def)
qed

lemma generate_split:
  assumes "generate rs g sx sy = Some g'"
  obtains g1 where "placeMines rs (clearContent g) sx sy 0 = Some g1" "g' = computeNumbers g1"
  using assms by (auto simp: generate_def)

lemma generate_wf: "generate rs g sx sy = Some g' \<Longrightarrow> wfField g \<Longrightarrow> wfField g'"
  by (erule generate_split)
     (auto simp: clearContent_props(2) intro!: computeNumbers_props(1) dest: placeMines_wf)

lemma generate_state:
  assumes "generate rs g sx sy = Some g'" "wfField g"
  shows "state (cellAt g' a b) = state (cellAt g a b)"
proof -
  from assms(1) obtain g1 where g1: "placeMines rs (clearContent g) sx sy 0 = Some g1"
    and g': "g' = computeNumbers g1" by (rule generate_split)
  from assms(2) have "wfField g1" using placeMines_wf[OF g1] by (simp add: clearContent_props(2))
  then show ?thesis
    by (simp add: g' computeNumbers_props(2) placeMines_state[OF g1] clearContent_props(3))
qed

lemma generate_mines:
  assumes gen: "generate rs g sx sy = Some g'" and wf: "wfField g"
  shows "\<exists>g1. placeMines rs (clearContent g) sx sy 0 = Some g1 \<and> wfField g1 \<and>
    W g1 = W g \<and> H g1 = H g \<and> W g' = W g \<and> H g' = H g \<and> MINES g' = MINES g \<and>
    minePositions g' = minePositions g1 \<and> minePositions (clearContent g) = {} \<and>
    (\<forall>a b. inRange g a b \<longrightarrow> content (cellAt g' a b) =
       (if isMine (content (cellAt g1 a b)) then content (cellAt g1 a b)
        else makeNumber (countMinesAround g1 a b)))"
proof -
  from gen obtain g1 where g1: "placeMines rs (clearContent g) sx sy 0 = Some g1"
    and g': "g' = computeNumbers g1" by (rule generate_split)
  have wf0: "wfField (clearContent g)" using wf by (simp add: clearContent_props(2))
  have wf1: "wfField g1" using placeMines_wf[OF g1 wf0] .
  have s1: "scalars g1 = scalars g"
    using scalars_placeMines[OF g1] by (simp add: clearContent_props(1))
  have s': "scalars g' = scalars g" using s1 by (simp add: g' scalars_computeNumbers)
  note d1 = scalars_eqD[OF s1] and d' = scalars_eqD[OF s']
  have r1: "inRange g1 a b = inRange g a b" for a b using d1(1,2) by (simp add: inRange_def)
  have r': "inRange g' a b = inRange g a b" for a b using d'(1,2) by (simp add: inRange_def)
  have r0: "inRange (clearContent g) a b = inRange g a b" for a b
    using scalars_eqD(1,2)[OF clearContent_props(1), of g] by (simp add: inRange_def)
  have c: "content (cellAt g' a b) =
       (if isMine (content (cellAt g1 a b)) then content (cellAt g1 a b)
        else makeNumber (countMinesAround g1 a b))" if "inRange g a b" for a b
    unfolding g' using computeNumbers_props(3)[OF wf1, of a b] that by (simp add: r1)
  have m: "minePositions g' = minePositions g1"
    by (auto simp: minePositions_def r' r1 c split: if_splits)
  have e: "minePositions (clearContent g) = {}"
    by (auto simp: minePositions_def r0 clearContent_props(4)[OF wf])
  from g1 wf1 d1(1,2) d'(1,2,3) m e c show ?thesis by blast
qed

text \<open>The generated board has no mine in the safe zone.\<close>

lemma generate_safe:
  assumes "generate rs g sx sy = Some g'" "wfField g" "(a, b) \<in> minePositions g'"
  shows "\<not> (\<bar>a - sx\<bar> \<le> 1 \<and> \<bar>b - sy\<bar> \<le> 1)"
proof -
  from generate_mines[OF assms(1,2)]
  obtain g1 where g1: "placeMines rs (clearContent g) sx sy 0 = Some g1"
    and wh1: "W g1 = W g" "H g1 = H g"
    and m: "minePositions g' = minePositions g1" and e: "minePositions (clearContent g) = {}"
    by blast
  from assms(3)[unfolded m] have ab: "inRange g1 a b" "isMine (content (cellAt g1 a b))"
    by (simp_all add: minePositions_def)
  then have nn: "0 \<le> a" "0 \<le> b" by (simp_all add: inRange_def)
  from ab(1) wh1 have "(a, b) \<notin> minePositions (clearContent g) \<longrightarrow>
      \<not> isMine (content (cellAt (clearContent g) a b))"
    using scalars_eqD(1,2)[OF clearContent_props(1), of g]
    by (simp add: minePositions_def inRange_def)
  with e have "\<not> isMine (content (cellAt (clearContent g) a b))" by simp
  with placeMines_safe[OF g1 nn ab(2)] show ?thesis by simp
qed

section \<open>What a reveal keeps\<close>

lemma checkWin_sel [simp]:
  "W (checkWin g) = W g" "H (checkWin g) = H g" "MINES (checkWin g) = MINES g"
  "firstClick (checkWin g) = firstClick g" "timeElapsed (checkWin g) = timeElapsed g"
  "field (checkWin g) = field g"
  using checkWin_cases[of g] by auto

lemma wfField_checkWin [simp]: "wfField (checkWin g) = wfField g"
  by (simp add: wfField_def)

lemma checkWin_timer:
  "timerRunning g \<Longrightarrow> \<not> win g \<Longrightarrow> timerRunning (checkWin g) \<longleftrightarrow> \<not> win (checkWin g)"
  using checkWin_cases[of g] by auto

lemma content_fold_setState:
  "content (cellAt (fold (\<lambda>(xx, yy) g'. setState g' xx yy s) ps g) a b) = content (cellAt g a b)"
  by (induction ps arbitrary: g) (auto split: prod.splits)

lemma triggerExplosion_keeps:
  "firstClick (triggerExplosion g) = firstClick g"
  "timeElapsed (triggerExplosion g) = timeElapsed g"
  "content (cellAt (triggerExplosion g) a b) = content (cellAt g a b)"
  "wfField (triggerExplosion g) = wfField g"
proof -
  let ?g0 = "g\<lparr>explosion := True, explosionTimer := float_0_2\<rparr>"
  let ?f = "fold (\<lambda>(xx, yy) g'. setState g' xx yy OpenedState) (cells g) ?g0"
  have te: "triggerExplosion g = ?f\<lparr>gameOver := True, timerRunning := False\<rparr>"
    by (simp add: triggerExplosion_def stopTimer_def)
  note sel = scalars_eqD[OF fold_setState_sel, of OpenedState "cells g" ?g0]
  show "firstClick (triggerExplosion g) = firstClick g"
    "timeElapsed (triggerExplosion g) = timeElapsed g"
    using sel by (simp_all add: te)
  have "cellAt (triggerExplosion g) a b = cellAt ?f a b" by (simp add: te cellAt_def)
  moreover have "content (cellAt ?f a b) = content (cellAt ?g0 a b)"
    by (rule content_fold_setState)
  moreover have "cellAt ?g0 a b = cellAt g a b" by (simp add: cellAt_def)
  ultimately show "content (cellAt (triggerExplosion g) a b) = content (cellAt g a b)"
    by simp
  have "wfField (triggerExplosion g) = wfField ?f" by (simp add: te wfField_def)
  also have "\<dots> = wfField ?g0" by (rule wfField_fold_setState)
  also have "\<dots> = wfField g" by (simp add: wfField_def)
  finally show "wfField (triggerExplosion g) = wfField g" .
qed

text \<open>What the rest of a reveal keeps: the shape of the field, the contents, the timer value.\<close>

lemma finishReveal_keeps:
  assumes "wfField g"
  shows "wfField (finishReveal g x y)"
    "firstClick (finishReveal g x y) = firstClick g"
    "timeElapsed (finishReveal g x y) = timeElapsed g"
    "content (cellAt (finishReveal g x y) a b) = content (cellAt g a b)"
proof -
  let ?g2 = "setState g x y OpenedState"
  have wf2: "wfField ?g2" using assms by simp
  note fl = scalars_eqD[OF scalars_floodFill, of ?g2 x y]
  have wff: "wfField (floodFill ?g2 x y)"
    unfolding floodFill_loop by (rule wfField_floodLoop[OF wf2])
  have cf: "content (cellAt (floodFill ?g2 x y) a b) = content (cellAt g a b)"
    unfolding floodFill_loop by (simp add: content_floodLoop[OF wf2])
  show "wfField (finishReveal g x y)"
    using wf2 wff by (simp add: finishReveal_def Let_def triggerExplosion_keeps)
  show "firstClick (finishReveal g x y) = firstClick g"
    "timeElapsed (finishReveal g x y) = timeElapsed g"
    using fl by (simp_all add: finishReveal_def Let_def triggerExplosion_keeps)
  show "content (cellAt (finishReveal g x y) a b) = content (cellAt g a b)"
    using cf by (simp add: finishReveal_def Let_def triggerExplosion_keeps)
qed

lemma finishReveal_timer:
  assumes "wfField g" "timerRunning g" "\<not> win g" "\<not> gameOver g"
  shows "timerRunning (finishReveal g x y) \<longleftrightarrow>
           \<not> win (finishReveal g x y) \<and> \<not> gameOver (finishReveal g x y)"
proof -
  let ?g2 = "setState g x y OpenedState"
  have wf2: "wfField ?g2" using assms by simp
  note fl = scalars_eqD[OF scalars_floodFill, of ?g2 x y]
  show ?thesis
  proof (cases "isMine (content (cellAt ?g2 x y))")
    case True
    then have "finishReveal g x y = triggerExplosion ?g2" by (simp add: finishReveal_def Let_def)
    then show ?thesis using triggerExplosion_props(1,2)[OF wf2] by simp
  next
    case False
    define r where "r = (if isEmpty (content (cellAt ?g2 x y)) then floodFill ?g2 x y else ?g2)"
    have fr: "finishReveal g x y = checkWin r"
      using False by (simp add: finishReveal_def Let_def r_def)
    have "timerRunning r" "\<not> win r" "\<not> gameOver r"
      using assms fl by (simp_all add: r_def)
    then show ?thesis
      unfolding fr using checkWin_timer[of r] by (simp add: gameOver_checkWin)
  qed
qed

text \<open>After the first click no event but a restart touches the contents.\<close>

lemma later_step:
  assumes "wfField g" "\<not> firstClick g" "step e g = Some g'" "e \<noteq> Reset"
  shows "wfField g' \<and> \<not> firstClick g' \<and> (\<forall>a b. content (cellAt g' a b) = content (cellAt g a b))"
proof (cases e)
  case (LeftClick rs x y)
  with assms(3) have lc: "leftClickCell rs g x y = Some g'" by simp
  show ?thesis
  proof (cases "state (cellAt g x y) = ClosedState \<and> \<not> gameOver g \<and> \<not> win g")
    case True
    with lc assms(2) have "g' = finishReveal g x y"
      by (auto simp: leftClickCell_def revealFromState_later split: if_splits)
    with finishReveal_keeps[OF assms(1), of x y] assms(2) show ?thesis by simp
  next
    case False
    with lc have "g' = g"
      by (cases "state (cellAt g x y)")
         (auto simp: leftClickCell_def revealFromState_absorbed split: if_splits)
    with assms show ?thesis by simp
  qed
next
  case (RightClick x y)
  with assms(3) have rc: "rightClickCell g x y = Some g'" by simp
  then have "g' = g \<or> g' = checkWin (setState g x y FlaggedState) \<or> g' = setState g x y ClosedState"
    by (cases "state (cellAt g x y)")
       (auto simp: rightClickCell_def toggleFlagFromState_def split: if_splits)
  with assms(1,2) show ?thesis by auto
next
  case (Tick dt)
  with assms(3) have "g' = update g dt" by simp
  then have "field g' = field g" "W g' = W g" "H g' = H g" "firstClick g' = firstClick g"
    by (simp_all add: update_def Let_def)
  with assms(1,2) show ?thesis by (simp add: wfField_def cellAt_def)
next
  case Reset
  with assms(4) show ?thesis by simp
qed

lemma later_run:
  assumes "wfField g" "\<not> firstClick g" "run es g = Some g'" "Reset \<notin> set es"
  shows "wfField g' \<and> \<not> firstClick g' \<and> (\<forall>a b. content (cellAt g' a b) = content (cellAt g a b))"
  using assms
proof (induction es arbitrary: g)
  case Nil
  then show ?case by simp
next
  case (Cons e es)
  from Cons.prems(3) obtain g1 where s: "step e g = Some g1" and r: "run es g1 = Some g'"
    by (auto split: option.splits)
  from Cons.prems(4) have ne: "e \<noteq> Reset" "Reset \<notin> set es" by auto
  from later_step[OF Cons.prems(1,2) s ne(1)] Cons.IH[OF _ _ r ne(2)] show ?case by simp
qed

text \<open>The first accepted reveal, taken apart.\<close>

lemma first_reveal:
  assumes "wfField g" "inRange g x y" "firstClick g" "\<not> gameOver g" "\<not> win g"
    "state (cellAt g x y) = ClosedState" "leftClickCell rs g x y = Some g'"
  obtains gen s where "generate rs g x y = Some gen"
    "s = startTimerIfNeeded (gen\<lparr>firstClick := False\<rparr>)" "g' = finishReveal s x y"
    "wfField s" "\<not> firstClick s" "\<not> gameOver s" "\<not> win s"
    "W s = W g" "H s = H g" "timerRunning s" "\<not> timerRunning g \<Longrightarrow> timeElapsed s = float_0_0"
    "\<And>a b. cellAt s a b = cellAt gen a b"
    "\<And>a b. state (cellAt gen a b) = state (cellAt g a b)"
    "\<not> isMine (content (cellAt gen x y))"
proof -
  from assms(1,2) have inf: "inField g x y" by (simp add: inField_inRange)
  from assms inf have "revealFromState rs g x y = Some g'" by (simp add: leftClickCell_def)
  with assms inf obtain gen where gen: "generate rs g x y = Some gen"
    and g': "g' = finishReveal (startTimerIfNeeded (gen\<lparr>firstClick := False\<rparr>)) x y"
    by (auto simp: revealFromState_first)
  define s where "s = startTimerIfNeeded (gen\<lparr>firstClick := False\<rparr>)"
  note d = scalars_eqD[OF scalars_generate[OF gen]]
  have wfgen: "wfField gen" by (rule generate_wf[OF gen assms(1)])
  have fs: "field s = field gen" by (simp add: s_def startTimerIfNeeded_def)
  have sel: "W s = W g" "H s = H g" "\<not> firstClick s" "\<not> gameOver s" "\<not> win s" "timerRunning s"
    using d assms(4,5) by (simp_all add: s_def startTimerIfNeeded_def)
  have te: "timeElapsed s = float_0_0" if "\<not> timerRunning g"
    using d that by (simp add: s_def startTimerIfNeeded_def)
  have wfs: "wfField s" using wfgen d(1,2) sel(1,2) fs by (simp add: wfField_def)
  have cs: "cellAt s a b = cellAt gen a b" for a b by (simp add: cellAt_def fs)
  have st: "state (cellAt gen a b) = state (cellAt g a b)" for a b
    by (rule generate_state[OF gen assms(1)])
  have "(x, y) \<notin> minePositions gen"
    using generate_safe[OF gen assms(1), of x y] by auto
  moreover have "inRange gen x y" using assms(2) d(1,2) by (simp add: inRange_def)
  ultimately have nm: "\<not> isMine (content (cellAt gen x y))" by (simp add: minePositions_def)
  from gen s_def g'[folded s_def] wfs sel(3,4,5,1,2,6) te cs st nm show ?thesis by (rule that)
qed

section \<open>Reachable sessions\<close>

text \<open>
  Every reachable session has a field of \<open>H\<close> rows of \<open>W\<close> cells, and while the first click
  is pending its timer is not running.
\<close>

definition sound :: "Game \<Rightarrow> bool" where
  "sound g \<longleftrightarrow> wfField g \<and> (firstClick g \<longrightarrow> \<not> timerRunning g)"

lemma sound_resetField: "resetField g = Some g' \<Longrightarrow> sound g'"
  by (auto simp: resetField_def sound_def wfField_def list_all_iff split: if_splits)

lemma sound_leftClickCell:
  assumes "sound g" "leftClickCell rs g x y = Some g'"
  shows "sound g'"
proof (cases "state (cellAt g x y) = ClosedState \<and> \<not> gameOver g \<and> \<not> win g")
  case False
  with assms(2) have "g' = g"
    by (cases "state (cellAt g x y)")
       (auto simp: leftClickCell_def revealFromState_absorbed split: if_splits)
  with assms(1) show ?thesis by simp
next
  case True
  from assms(2) have inf: "inField g x y" by (auto simp: leftClickCell_def split: if_splits)
  from assms(1) have wf: "wfField g" by (simp add: sound_def)
  from inf wf have r: "inRange g x y" by (simp add: inField_inRange)
  show ?thesis
  proof (cases "firstClick g")
    case fc: True
    from True have t: "\<not> gameOver g" "\<not> win g" "state (cellAt g x y) = ClosedState" by simp_all
    obtain s where "g' = finishReveal s x y" "wfField s" "\<not> firstClick s"
      by (rule first_reveal[OF wf r fc t assms(2)]) (rule that; assumption)
    with finishReveal_keeps(1,2)[of s x y] show ?thesis by (simp add: sound_def)
  next
    case fc: False
    with True inf assms(2) have "g' = finishReveal g x y"
      by (simp add: leftClickCell_def revealFromState_later)
    with finishReveal_keeps(1,2)[OF wf, of x y] fc show ?thesis by (simp add: sound_def)
  qed
qed

lemma sound_rightClickCell:
  assumes "sound g" "rightClickCell g x y = Some g'"
  shows "sound g'"
proof -
  from assms(2) have
    "g' = g \<or> g' = checkWin (setState g x y FlaggedState) \<or> g' = setState g x y ClosedState"
    by (cases "state (cellAt g x y)")
       (auto simp: rightClickCell_def toggleFlagFromState_def split: if_splits)
  moreover have "timerRunning (checkWin (setState g x y FlaggedState)) \<longrightarrow> timerRunning g"
    using checkWin_cases[of "setState g x y FlaggedState"] by auto
  ultimately show ?thesis using assms(1) by (auto simp: sound_def)
qed

lemma sound_update: "sound g \<Longrightarrow> sound (update g dt)"
  by (auto simp: sound_def update_def Let_def wfField_def)

lemma sound_step: "sound g \<Longrightarrow> step e g = Some g' \<Longrightarrow> sound g'"
  by (cases e)
     (auto intro: sound_leftClickCell sound_rightClickCell sound_update sound_resetField)

lemma sound_run: "sound g \<Longrightarrow> run es g = Some g' \<Longrightarrow> sound g'"
  by (induction es arbitrary: g) (auto split: option.splits intro: sound_step)

lemma reachable_sound: "reachable g \<Longrightarrow> wfField g \<and> (firstClick g \<longrightarrow> \<not> timerRunning g)"
proof -
  assume "reachable g"
  then obtain w h mines es g0 where
    "newGame w h mines = Some g0" "run es g0 = Some g"
    unfolding reachable_def by blast
  then have "sound g" by (auto simp: newGame_def intro: sound_run sound_resetField)
  then show ?thesis by (simp add: sound_def)
qed

section \<open>The generation can return\<close>

text \<open>
  The loop can end: when fewer than \<open>W * H - 9\<close> mines are asked for, there are random
  values for which the generation returns. \<open>draws ps\<close> are the values that make the loop
  pick the positions \<open>ps\<close> one after the other.
\<close>

definition draws :: "(int \<times> int) list \<Rightarrow> nat list" where
  "draws ps = concat (map (\<lambda>(x, y). [nat x, nat y]) ps)"

lemma placeMines_can_return:
  assumes "wfField g" "distinct ps"
    "\<forall>(x, y) \<in> set ps. inRange g x y \<and> \<not> isMine (content (cellAt g x y)) \<and>
        \<not> (\<bar>x - sx\<bar> \<le> 1 \<and> \<bar>y - sy\<bar> \<le> 1)"
    "int (length ps) = MINES g - placed"
  shows "\<exists>g'. placeMines (draws ps) g sx sy placed = Some g'"
  using assms
proof (induction ps arbitrary: g placed)
  case Nil
  then show ?case by (simp add: draws_def)
next
  case (Cons p ps)
  obtain x y where p: "p = (x, y)" by (cases p)
  from Cons.prems(3) have xy: "inRange g x y" "\<not> isMine (content (cellAt g x y))"
    "\<not> (\<bar>x - sx\<bar> \<le> 1 \<and> \<bar>y - sy\<bar> \<le> 1)"
    by (simp_all add: p)
  from xy(1) have rng: "0 \<le> x" "x < W g" "0 \<le> y" "y < H g" by (simp_all add: inRange_def)
  then have md: "int (nat x) mod W g = x" "int (nat y) mod H g = y" by simp_all
  from xy(1) Cons.prems(1) have inf: "inField g x y" by (simp add: inField_inRange)
  from Cons.prems(4) have less: "placed < MINES g" by simp
  let ?g' = "setContent g x y MineContent"
  have "\<forall>(a, b) \<in> set ps. inRange ?g' a b \<and> \<not> isMine (content (cellAt ?g' a b)) \<and>
        \<not> (\<bar>a - sx\<bar> \<le> 1 \<and> \<bar>b - sy\<bar> \<le> 1)"
  proof (clarify, intro conjI)
    fix a b assume ab: "(a, b) \<in> set ps"
    with Cons.prems(3) have old: "inRange g a b" "\<not> isMine (content (cellAt g a b))"
      "\<not> (\<bar>a - sx\<bar> \<le> 1 \<and> \<bar>b - sy\<bar> \<le> 1)" by auto
    from ab Cons.prems(2) have ne: "(a, b) \<noteq> (x, y)" by (auto simp: p)
    show "inRange ?g' a b" using old(1) by simp
    show "\<not> isMine (content (cellAt ?g' a b))"
      using cellAt_setContent[OF inf, of a b MineContent] old(1,2) ne
      by (auto simp: inRange_def)
    show "\<not> (\<bar>a - sx\<bar> \<le> 1 \<and> \<bar>b - sy\<bar> \<le> 1)" by (rule old(3))
  qed
  moreover have "wfField ?g'" "distinct ps" "int (length ps) = MINES ?g' - (placed + 1)"
    using Cons.prems(1,2,4) by simp_all
  ultimately obtain g' where "placeMines (draws ps) ?g' sx sy (placed + 1) = Some g'"
    using Cons.IH[of ?g' "placed + 1"] by blast
  moreover have "draws (p # ps) = nat x # nat y # draws ps" by (simp add: draws_def p)
  ultimately show ?case
    using less rng md inf xy(2,3) by (auto simp: Let_def simp del: abs_le_iff)
qed

lemma length_cells: "length (cells g) = nat (H g) * nat (W g)"
proof -
  have "length [(x, y). y \<leftarrow> ys, x \<leftarrow> xs] = length ys * length xs"
    for xs ys :: "int list"
    by (induction ys) simp_all
  then have "length (cells g) = length (map int [0..<nat (H g)]) * length (map int [0..<nat (W g)])"
    unfolding cells_def .
  then show ?thesis by simp
qed

lemma safe_zone_small:
  "length (filter (\<lambda>(x, y). \<bar>x - sx\<bar> \<le> 1 \<and> \<bar>y - sy\<bar> \<le> 1) (cells g)) \<le> 9"
proof -
  let ?S = "\<lambda>(x :: int, y :: int). \<bar>x - sx\<bar> \<le> 1 \<and> \<bar>y - sy\<bar> \<le> 1"
  have "{p. ?S p} \<inter> set (cells g) \<subseteq> {sx - 1..sx + 1} \<times> {sy - 1..sy + 1}" by auto
  then have "card ({p. ?S p} \<inter> set (cells g)) \<le> card ({sx - 1..sx + 1} \<times> {sy - 1..sy + 1})"
    by (intro card_mono) simp_all
  also have "\<dots> = 9" by (simp add: card_cartesian_product)
  finally show ?thesis
    using distinct_length_filter[OF distinct_cells, of ?S g] by simp
qed

lemma generate_can_return:
  assumes "wfField g" "0 < W g" "0 < H g" "0 \<le> MINES g" "MINES g < W g * H g - 9"
  shows "\<exists>rs g'. generate rs g sx sy = Some g'"
proof -
  let ?S = "\<lambda>(x :: int, y :: int). \<bar>x - sx\<bar> \<le> 1 \<and> \<bar>y - sy\<bar> \<le> 1"
  let ?free = "filter (\<lambda>p. \<not> ?S p) (cells g)"
  define ps where "ps = take (nat (MINES g)) ?free"
  let ?g0 = "clearContent g"
  have "length (filter ?S (cells g)) + length ?free = length (cells g)"
    by (rule sum_length_filter_compl)
  moreover have "int (length (cells g)) = W g * H g"
    using assms(2,3) by (simp add: length_cells nat_mult_distrib[symmetric])
  ultimately have "W g * H g - 9 \<le> int (length ?free)"
    using safe_zone_small[of sx sy g] by linarith
  with assms(4,5) have len: "int (length ps) = MINES g" by (simp add: ps_def)
  have sub: "set ps \<subseteq> set ?free" unfolding ps_def by (rule set_take_subset)
  have d: "distinct ps" unfolding ps_def by (simp add: distinct_cells)
  have wf0: "wfField ?g0" using assms(1) by (simp add: clearContent_props(2))
  note s0 = scalars_eqD(1-3)[OF clearContent_props(1), of g]
  have r0: "inRange ?g0 a b = inRange g a b" for a b using s0 by (simp add: inRange_def)
  have "\<forall>(x, y) \<in> set ps. inRange ?g0 x y \<and> \<not> isMine (content (cellAt ?g0 x y)) \<and>
        \<not> (\<bar>x - sx\<bar> \<le> 1 \<and> \<bar>y - sy\<bar> \<le> 1)"
  proof (clarify, intro conjI)
    fix a b assume "(a, b) \<in> set ps"
    with sub have f: "(a, b) \<in> set ?free" by blast
    then have r: "inRange g a b" by (simp add: cells_set)
    then show "inRange ?g0 a b" by (simp add: r0)
    show "\<not> isMine (content (cellAt ?g0 a b))"
      by (simp add: clearContent_props(4)[OF assms(1) r])
    from f show "\<not> (\<bar>a - sx\<bar> \<le> 1 \<and> \<bar>b - sy\<bar> \<le> 1)" by simp
  qed
  moreover have "int (length ps) = MINES ?g0 - 0" using len s0 by simp
  ultimately obtain g1 where "placeMines (draws ps) ?g0 sx sy 0 = Some g1"
    using placeMines_can_return[OF wf0 d] by blast
  then have "generate (draws ps) g sx sy = Some (computeNumbers g1)"
    by (simp add: generate_def)
  then show ?thesis by blast
qed

lemma first_reveal_can_return:
  assumes "wfField g" "inRange g x y" "firstClick g" "\<not> gameOver g" "\<not> win g"
    "state (cellAt g x y) = ClosedState" "0 \<le> MINES g" "MINES g < W g * H g - 9"
  shows "\<exists>rs g'. leftClickCell rs g x y = Some g'"
proof -
  from assms(2) have "0 < W g" "0 < H g" by (simp_all add: inRange_def)
  from generate_can_return[OF assms(1) this assms(7,8), of x y]
  obtain rs gen where "generate rs g x y = Some gen" by blast
  moreover from assms(1,2) have "inField g x y" by (simp add: inField_inRange)
  ultimately show ?thesis
    using assms(3-6) by (auto simp: leftClickCell_def revealFromState_first)
qed

text \<open>
  When the loop ends. \<open>pairs rs\<close> are the draws two by two, \<open>picks g rs\<close> the positions the
  loop would look at with them, and \<open>hits g rs safeX safeY\<close> the different positions
  among these that lie outside the safe zone. The generation returns exactly when the
  draws hit at least \<open>MINES\<close> such positions.
\<close>

fun pairs :: "nat list \<Rightarrow> (nat \<times> nat) list" where
  "pairs (r1 # r2 # rs) = (r1, r2) # pairs rs"
| "pairs [r1] = []"
| "pairs [] = []"

definition picks :: "Game \<Rightarrow> nat list \<Rightarrow> (int \<times> int) list" where
  "picks g rs = map (\<lambda>(r1, r2). (int r1 mod W g, int r2 mod H g)) (pairs rs)"

definition hits :: "Game \<Rightarrow> nat list \<Rightarrow> int \<Rightarrow> int \<Rightarrow> (int \<times> int) list" where
  "hits g rs safeX safeY =
     remdups (filter (\<lambda>(x, y). \<not> (\<bar>x - safeX\<bar> \<le> 1 \<and> \<bar>y - safeY\<bar> \<le> 1)) (picks g rs))"

lemma picks_setContent [simp]: "picks (setContent g x y c) rs = picks g rs"
  by (simp add: picks_def)

lemma hits_setContent [simp]: "hits (setContent g x y c) rs sx sy = hits g rs sx sy"
  by (simp add: hits_def)

lemma hits_step:
  "set (hits g (r1 # r2 # rs) sx sy) =
     (if \<bar>int r1 mod W g - sx\<bar> \<le> 1 \<and> \<bar>int r2 mod H g - sy\<bar> \<le> 1 then {}
      else {(int r1 mod W g, int r2 mod H g)}) \<union> set (hits g rs sx sy)"
  by (simp add: hits_def picks_def del: abs_le_iff)

lemma hits_none: "hits g [r1] sx sy = []" "hits g [] sx sy = []"
  by (simp_all add: hits_def picks_def)

lemma placeMines_returns:
  assumes "wfField g" "0 < W g" "0 < H g"
  shows "(\<exists>g'. placeMines rs g sx sy placed = Some g') \<longleftrightarrow>
         MINES g - placed \<le> int (card (set (hits g rs sx sy) - minePositions g))"
  using assms
proof (induction rs arbitrary: g placed rule: pairs.induct)
  case (1 r1 r2 rs)
  let ?x = "int r1 mod W g" and ?y = "int r2 mod H g"
  let ?p = "(?x, ?y)"
  let ?M = "minePositions g"
  let ?A = "set (hits g rs sx sy)"
  define safe where "safe \<longleftrightarrow> \<bar>?x - sx\<bar> \<le> 1 \<and> \<bar>?y - sy\<bar> \<le> 1"
  from "1.prems" have rng: "inRange g ?x ?y" by (simp add: inRange_def)
  with "1.prems"(1) have inf: "inField g ?x ?y" by (simp add: inField_inRange)
  have hs: "set (hits g (r1 # r2 # rs) sx sy) = (if safe then {} else {?p}) \<union> ?A"
    unfolding safe_def by (rule hits_step)
  show ?case
  proof (cases "placed < MINES g")
    case False
    then show ?thesis by simp
  next
    case less: True
    have nwh: "\<not> (W g \<le> 0 \<or> H g \<le> 0)" using "1.prems" by simp
    have pm_eq: "placeMines (r1 # r2 # rs) g sx sy placed =
        (if isMine (content (cellAt g ?x ?y)) then placeMines rs g sx sy placed
         else if safe then placeMines rs g sx sy placed
         else placeMines rs (setContent g ?x ?y MineContent) sx sy (placed + 1))"
      using less nwh inf unfolding safe_def by (simp add: Let_def del: abs_le_iff)
    show ?thesis
    proof (cases "isMine (content (cellAt g ?x ?y))")
      case mine: True
      then have pm: "placeMines (r1 # r2 # rs) g sx sy placed = placeMines rs g sx sy placed"
        unfolding pm_eq by simp
      from mine rng have "?p \<in> ?M" by (simp add: minePositions_def)
      then have eq: "set (hits g (r1 # r2 # rs) sx sy) - ?M = ?A - ?M" unfolding hs by auto
      show ?thesis unfolding pm eq by (rule "1.IH"[OF "1.prems"])
    next
      case nomine: False
      show ?thesis
      proof (cases safe)
        case True
        then have pm: "placeMines (r1 # r2 # rs) g sx sy placed = placeMines rs g sx sy placed"
          unfolding pm_eq using nomine by simp
        from True have eq: "set (hits g (r1 # r2 # rs) sx sy) - ?M = ?A - ?M"
          unfolding hs by simp
        show ?thesis unfolding pm eq by (rule "1.IH"[OF "1.prems"])
      next
        case False
        let ?g' = "setContent g ?x ?y MineContent"
        have pm: "placeMines (r1 # r2 # rs) g sx sy placed = placeMines rs ?g' sx sy (placed + 1)"
          unfolding pm_eq using nomine False by simp
        have M': "minePositions ?g' = insert ?p ?M" by (rule minePositions_place[OF inf rng])
        have "wfField ?g'" "0 < W ?g'" "0 < H ?g'" using "1.prems" by simp_all
        from "1.IH"[OF this, of "placed + 1"]
        have ih: "(\<exists>g'. placeMines rs ?g' sx sy (placed + 1) = Some g') \<longleftrightarrow>
                  MINES g - (placed + 1) \<le> int (card (?A - insert ?p ?M))"
          by (simp add: M')
        from nomine have "?p \<notin> ?M" by (simp add: minePositions_def)
        with False have "set (hits g (r1 # r2 # rs) sx sy) - ?M = insert ?p (?A - insert ?p ?M)"
          unfolding hs by auto
        moreover have "card (insert ?p (?A - insert ?p ?M)) = Suc (card (?A - insert ?p ?M))"
          by (rule card_insert_disjoint) simp_all
        ultimately have eq: "int (card (set (hits g (r1 # r2 # rs) sx sy) - ?M)) =
                         1 + int (card (?A - insert ?p ?M))" by simp
        show ?thesis unfolding pm ih eq by linarith
      qed
    qed
  qed
next
  case (2 r1)
  then show ?case by (simp add: hits_none)
next
  case 3
  then show ?case by (simp add: hits_none)
qed

lemma generate_returns:
  assumes "wfField g" "0 < W g" "0 < H g"
  shows "(\<exists>g'. generate rs g sx sy = Some g') \<longleftrightarrow> MINES g \<le> int (length (hits g rs sx sy))"
proof -
  let ?g0 = "clearContent g"
  note s0 = scalars_eqD(1-3)[OF clearContent_props(1), of g]
  have wf0: "wfField ?g0" "0 < W ?g0" "0 < H ?g0"
    using assms s0 by (simp_all add: clearContent_props(2))
  have "minePositions ?g0 = {}"
    using clearContent_props(4)[OF assms(1)] s0
    by (auto simp: minePositions_def inRange_def)
  moreover have "hits ?g0 rs sx sy = hits g rs sx sy" using s0 by (simp add: hits_def picks_def)
  moreover have "card (set (hits g rs sx sy)) = length (hits g rs sx sy)"
    unfolding hits_def by (rule distinct_card) simp
  ultimately have "(\<exists>g'. placeMines rs ?g0 sx sy 0 = Some g') \<longleftrightarrow>
      MINES g \<le> int (length (hits g rs sx sy))"
    using placeMines_returns[OF wf0, of rs sx sy 0] s0 by simp
  then show ?thesis by (simp add: generate_def)
qed

lemma first_reveal_returns:
  assumes "wfField g" "inRange g x y" "firstClick g" "\<not> gameOver g" "\<not> win g"
    "state (cellAt g x y) = ClosedState"
  shows "(\<exists>g'. leftClickCell rs g x y = Some g') \<longleftrightarrow> MINES g \<le> int (length (hits g rs x y))"
proof -
  from assms(2) have wh: "0 < W g" "0 < H g" by (simp_all add: inRange_def)
  from assms(1,2) have inf: "inField g x y" by (simp add: inField_inRange)
  have "leftClickCell rs g x y =
      map_option (\<lambda>gen. finishReveal (startTimerIfNeeded (gen\<lparr>firstClick := False\<rparr>)) x y)
        (generate rs g x y)"
    using assms inf by (simp add: leftClickCell_def revealFromState_first)
  then have "(\<exists>g'. leftClickCell rs g x y = Some g') \<longleftrightarrow> (\<exists>gen. generate rs g x y = Some gen)"
    by auto
  with generate_returns[OF assms(1) wh, of rs x y] show ?thesis by simp
qed


section \<open>Sessions before their first reveal\<close>

text \<open>
  A session is fresh as \<^verbatim>\<open>resetField\<close> returns it (the constructor ends with
  \<^verbatim>\<open>resetField\<close>, and so does a restart), and stays so under right clicks and frame
  ticks, the \<open>quiet\<close> events: the first click is pending, the timer is stopped, the game
  is neither lost nor won, and no cell holds a mine or is opened.
\<close>

fun quiet :: "event \<Rightarrow> bool" where
  "quiet (LeftClick rs x y) = False"
| "quiet (RightClick x y) = True"
| "quiet (Tick dt) = True"
| "quiet Reset = False"

definition pristine :: "Game \<Rightarrow> bool" where
  "pristine g \<longleftrightarrow>
     wfField g \<and> firstClick g \<and> \<not> gameOver g \<and> \<not> win g \<and> \<not> timerRunning g \<and>
     (\<forall>x y. inRange g x y \<longrightarrow>
        \<not> isMine (content (cellAt g x y)) \<and> \<not> isOpen (state (cellAt g x y)))"

lemma pristine_resetField:
  assumes "resetField g0 = Some g"
  shows "pristine g"
proof -
  from assms have g: "g = g0\<lparr>field := replicate (nat (H g0)) (replicate (nat (W g0)) makeInitialCell),
      gameOver := False, win := False, firstClick := True, explosion := False,
      explosionTimer := float_0_0, timerRunning := False, timeElapsed := float_0_0\<rparr>"
    by (simp add: resetField_def split: if_splits)
  have "cellAt g x y = makeInitialCell" if "inRange g x y" for x y
    using that by (simp add: g cellAt_def inRange_def)
  moreover from sound_resetField[OF assms] have "wfField g" by (simp add: sound_def)
  ultimately show ?thesis by (simp add: pristine_def makeInitialCell_def) (simp add: g)
qed

lemma pristine_rightClickCell:
  assumes "pristine g" "rightClickCell g x y = Some g'"
  shows "pristine g'"
proof -
  from assms(1) have wf: "wfField g" and fl: "firstClick g" "\<not> gameOver g" "\<not> win g"
    "\<not> timerRunning g"
    and cl: "\<And>a b. inRange g a b \<Longrightarrow>
               \<not> isMine (content (cellAt g a b)) \<and> \<not> isOpen (state (cellAt g a b))"
    by (simp_all add: pristine_def)
  from assms(2) have inf: "inField g x y" by (auto simp: rightClickCell_def split: if_splits)
  with wf have rng: "inRange g x y" by (simp add: inField_inRange)
  have keep: "pristine (setState g x y s)" if "\<not> isOpen s" for s
  proof -
    have "\<not> isOpen (state (cellAt (setState g x y s) a b))" if "inRange g a b" for a b
      using cellAt_setState[OF inf, of a b s] that cl[of a b] \<open>\<not> isOpen s\<close>
      by (auto simp: inRange_def)
    with wf fl cl show ?thesis by (simp add: pristine_def inRange_def)
  qed
  show ?thesis
  proof (cases "state (cellAt g x y)")
    case ClosedState
    let ?g2 = "setState g x y FlaggedState"
    have c2: "state (cellAt ?g2 x y) = FlaggedState" "\<not> isMine (content (cellAt ?g2 x y))"
      using inf cl[OF rng] by (simp_all add: cellAt_setState_same)
    have r2: "inRange ?g2 x y" using rng by (simp add: inRange_def)
    have "\<not> allSafeOpen ?g2"
    proof
      assume "allSafeOpen ?g2"
      with r2 c2(2) have "isOpen (state (cellAt ?g2 x y))" unfolding allSafeOpen_def by blast
      with c2(1) show False by simp
    qed
    moreover have "\<not> winByFlags ?g2"
    proof
      assume "winByFlags ?g2"
      moreover from r2 c2(1) have "(x, y) \<in> flaggedCells ?g2" by (simp add: flaggedCells_def)
      ultimately have "isMine (content (cellAt ?g2 x y))" unfolding winByFlags_def by blast
      with c2(2) show False by simp
    qed
    ultimately have "checkWin ?g2 = ?g2"
      using fl(3) by (simp add: checkWin_def checkWinOpen_eq checkWinFlags_eq Let_def)
    with assms(2) ClosedState inf fl have "g' = ?g2"
      by (simp add: rightClickCell_def toggleFlagFromState_def)
    with keep[of FlaggedState] show ?thesis by simp
  next
    case OpenedState
    with assms show ?thesis by (simp add: rightClickCell_def inf)
  next
    case FlaggedState
    with assms(2) inf have "g' = setState g x y ClosedState" by (simp add: rightClickCell_def)
    with keep[of ClosedState] show ?thesis by simp
  qed
qed

lemma pristine_update: "pristine g \<Longrightarrow> pristine (update g dt)"
  by (auto simp: pristine_def update_def Let_def wfField_def cellAt_def inRange_def)

lemma pristine_run: "pristine g \<Longrightarrow> run es g = Some g' \<Longrightarrow> list_all quiet es \<Longrightarrow> pristine g'"
proof (induction es arbitrary: g)
  case Nil
  then show ?case by simp
next
  case (Cons e es)
  from Cons.prems(2) obtain g1 where s: "step e g = Some g1" and r: "run es g1 = Some g'"
    by (auto split: option.splits)
  from Cons.prems(3) have q: "quiet e" "list_all quiet es" by simp_all
  have "pristine g1"
  proof (cases e)
    case (RightClick x y)
    with s Cons.prems(1) show ?thesis by (auto intro: pristine_rightClickCell)
  next
    case (Tick dt)
    with s Cons.prems(1) show ?thesis by (auto intro: pristine_update)
  qed (use q in simp_all)
  from Cons.IH[OF this r q(2)] show ?case .
qed

lemma finishReveal_no_loss:
  assumes "\<not> gameOver s" "\<not> isMine (content (cellAt s x y))"
  shows "\<not> gameOver (finishReveal s x y)"
  using assms scalars_eqD(4)[OF scalars_floodFill, of "setState s x y OpenedState" x y]
  by (simp add: finishReveal_def Let_def gameOver_checkWin)

section \<open>Concrete sessions\<close>

text \<open>
  A field of five columns and three rows, written as rows of (content, state) pairs.
\<close>

definition boardOf :: "(ICellContent \<times> ICellState) list list \<Rightarrow> Cell list list" where
  "boardOf rows = map (map (\<lambda>(c, s). \<lparr>content = c, state = s\<rparr>)) rows"

text \<open>\<open>freshGame\<close>: the session \<^verbatim>\<open>Game(5, 3, 2)\<close> as the constructor leaves it.\<close>

definition freshGame :: Game where
  "freshGame = \<lparr>W = 5, H = 3, MINES = 2, gameOver = False, win = False, firstClick = True,
     explosion = False, explosionTimer = float_0_0, timerRunning = False, timeElapsed = float_0_0,
     field = replicate 3 (replicate 5 makeInitialCell)\<rparr>"

text \<open>
  \<open>midGame\<close>: the session \<^verbatim>\<open>Game(5, 3, 2)\<close> after a first left click on (1, 1) whose
  generation drew 4, 0, 4, 2 from \<^verbatim>\<open>rand\<close>: mines at (4, 0) and (4, 2), everything but
  column 4 opened, the timer running.
\<close>

definition midGame :: Game where
  "midGame = \<lparr>W = 5, H = 3, MINES = 2, gameOver = False, win = False, firstClick = False,
     explosion = False, explosionTimer = float_0_0, timerRunning = True, timeElapsed = float_0_0,
     field = boardOf
      [[(EmptyContent, OpenedState), (EmptyContent, OpenedState), (EmptyContent, OpenedState),
        (NumberContent 1, OpenedState), (MineContent, ClosedState)],
       [(EmptyContent, OpenedState), (EmptyContent, OpenedState), (EmptyContent, OpenedState),
        (NumberContent 2, OpenedState), (NumberContent 2, ClosedState)],
       [(EmptyContent, OpenedState), (EmptyContent, OpenedState), (EmptyContent, OpenedState),
        (NumberContent 1, OpenedState), (MineContent, ClosedState)]]\<rparr>"

lemma midGame_run:
  "newGame 5 3 2 = Some freshGame \<and>
   run [LeftClick [4, 0, 4, 2] 1 1] freshGame = Some midGame"
  by code_simp

lemma midGame_reachable: "reachable midGame"
  unfolding reachable_def using midGame_run by blast

text \<open>\<open>lostGame\<close>: \<open>midGame\<close> after a left click on the mine at (4, 0).\<close>

definition lostGame :: Game where
  "lostGame = \<lparr>W = 5, H = 3, MINES = 2, gameOver = True, win = False, firstClick = False,
     explosion = True, explosionTimer = float_0_2, timerRunning = False, timeElapsed = float_0_0,
     field = boardOf
      [[(EmptyContent, OpenedState), (EmptyContent, OpenedState), (EmptyContent, OpenedState),
        (NumberContent 1, OpenedState), (MineContent, OpenedState)],
       [(EmptyContent, OpenedState), (EmptyContent, OpenedState), (EmptyContent, OpenedState),
        (NumberContent 2, OpenedState), (NumberContent 2, OpenedState)],
       [(EmptyContent, OpenedState), (EmptyContent, OpenedState), (EmptyContent, OpenedState),
        (NumberContent 1, OpenedState), (MineContent, OpenedState)]]\<rparr>"

lemma lostGame_run: "run [LeftClick [] 4 0] midGame = Some lostGame"
  by code_simp

lemma run_append:
  "run es g = Some g' \<Longrightarrow> run es' g' = Some g'' \<Longrightarrow> run (es @ es') g = Some g''"
  by (induction es arbitrary: g) (auto split: option.splits)

lemma reachable_run: "reachable g \<Longrightarrow> run es g = Some g' \<Longrightarrow> reachable g'"
  unfolding reachable_def by (blast intro: run_append)

lemma lostGame_reachable: "reachable lostGame"
  using midGame_reachable lostGame_run by (rule reachable_run)

text \<open>
  \<open>longGame\<close>: \<open>midGame\<close> after a tick of 16777216 seconds (a little more than 194 days).
\<close>

definition longGame :: Game where
  "longGame = midGame\<lparr>timeElapsed := Finite False 8388608 1\<rparr>"

lemma longGame_run: "run [Tick (literal32 16777216 1)] midGame = Some longGame"
  by (simp add: midGame_def longGame_def update_def Let_def float_0_0_eq float32_eval)

lemma longGame_reachable: "reachable longGame"
  using midGame_reachable longGame_run by (rule reachable_run)

text \<open>\<open>oneFlagGame\<close>: \<open>midGame\<close> after a right click on the mine at (4, 0).\<close>

definition oneFlagGame :: Game where
  "oneFlagGame = \<lparr>W = 5, H = 3, MINES = 2, gameOver = False, win = False, firstClick = False,
     explosion = False, explosionTimer = float_0_0, timerRunning = True, timeElapsed = float_0_0,
     field = boardOf
      [[(EmptyContent, OpenedState), (EmptyContent, OpenedState), (EmptyContent, OpenedState),
        (NumberContent 1, OpenedState), (MineContent, FlaggedState)],
       [(EmptyContent, OpenedState), (EmptyContent, OpenedState), (EmptyContent, OpenedState),
        (NumberContent 2, OpenedState), (NumberContent 2, ClosedState)],
       [(EmptyContent, OpenedState), (EmptyContent, OpenedState), (EmptyContent, OpenedState),
        (NumberContent 1, OpenedState), (MineContent, ClosedState)]]\<rparr>"

lemma oneFlagGame_run: "run [RightClick 4 0] midGame = Some oneFlagGame"
  by code_simp

lemma oneFlagGame_reachable: "reachable oneFlagGame"
  using midGame_reachable oneFlagGame_run by (rule reachable_run)

text \<open>
  \<open>wonGame\<close>: \<open>oneFlagGame\<close> after a right click on the other mine, at (4, 2): both mines
  flagged, the game won by flags, the timer stopped.
\<close>

definition wonGame :: Game where
  "wonGame = \<lparr>W = 5, H = 3, MINES = 2, gameOver = False, win = True, firstClick = False,
     explosion = False, explosionTimer = float_0_0, timerRunning = False, timeElapsed = float_0_0,
     field = boardOf
      [[(EmptyContent, OpenedState), (EmptyContent, OpenedState), (EmptyContent, OpenedState),
        (NumberContent 1, OpenedState), (MineContent, FlaggedState)],
       [(EmptyContent, OpenedState), (EmptyContent, OpenedState), (EmptyContent, OpenedState),
        (NumberContent 2, OpenedState), (NumberContent 2, ClosedState)],
       [(EmptyContent, OpenedState), (EmptyContent, OpenedState), (EmptyContent, OpenedState),
        (NumberContent 1, OpenedState), (MineContent, FlaggedState)]]\<rparr>"

lemma wonGame_run: "run [RightClick 4 2] oneFlagGame = Some wonGame"
  by code_simp

lemma wonGame_reachable: "reachable wonGame"
  using oneFlagGame_reachable wonGame_run by (rule reachable_run)

text \<open>
  \<open>twoClosed\<close>: the session \<^verbatim>\<open>Game(5, 3, 1)\<close> after flags on (0, 1) and (2, 1), a first left
  click on (1, 1) whose generation drew 4, 0 (the mine at (4, 0)), and the removal of the
  two flags: everything opened but the mine and the two cells that were flagged.
\<close>

definition twoClosed :: Game where
  "twoClosed = \<lparr>W = 5, H = 3, MINES = 1, gameOver = False, win = False, firstClick = False,
     explosion = False, explosionTimer = float_0_0, timerRunning = True, timeElapsed = float_0_0,
     field = boardOf
      [[(EmptyContent, OpenedState), (EmptyContent, OpenedState), (EmptyContent, OpenedState),
        (NumberContent 1, OpenedState), (MineContent, ClosedState)],
       [(EmptyContent, ClosedState), (EmptyContent, OpenedState), (EmptyContent, ClosedState),
        (NumberContent 1, OpenedState), (NumberContent 1, OpenedState)],
       [(EmptyContent, OpenedState), (EmptyContent, OpenedState), (EmptyContent, OpenedState),
        (EmptyContent, OpenedState), (EmptyContent, OpenedState)]]\<rparr>"

lemma twoClosed_run:
  "newGame 5 3 1 = Some (freshGame\<lparr>MINES := 1\<rparr>) \<and>
   run [RightClick 0 1, RightClick 2 1, LeftClick [4, 0] 1 1, RightClick 0 1, RightClick 2 1]
     (freshGame\<lparr>MINES := 1\<rparr>) = Some twoClosed"
  by code_simp

lemma twoClosed_reachable: "reachable twoClosed"
  unfolding reachable_def using twoClosed_run by blast

text \<open>\<open>oneClosed\<close>: \<open>twoClosed\<close> after a left click on (0, 1).\<close>

definition oneClosed :: Game where
  "oneClosed = \<lparr>W = 5, H = 3, MINES = 1, gameOver = False, win = False, firstClick = False,
     explosion = False, explosionTimer = float_0_0, timerRunning = True, timeElapsed = float_0_0,
     field = boardOf
      [[(EmptyContent, OpenedState), (EmptyContent, OpenedState), (EmptyContent, OpenedState),
        (NumberContent 1, OpenedState), (MineContent, ClosedState)],
       [(EmptyContent, OpenedState), (EmptyContent, OpenedState), (EmptyContent, ClosedState),
        (NumberContent 1, OpenedState), (NumberContent 1, OpenedState)],
       [(EmptyContent, OpenedState), (EmptyContent, OpenedState), (EmptyContent, OpenedState),
        (EmptyContent, OpenedState), (EmptyContent, OpenedState)]]\<rparr>"

text \<open>
  \<open>blockedGame\<close>: the session \<^verbatim>\<open>Game(5, 3, 2)\<close> after flags on the three cells of column 2
  and on (3, 1), a first left click on (0, 1) whose generation drew 4, 0, 4, 2, and the
  removal of the three flags of column 2: columns 0 and 1 opened, column 2 closed and
  empty, the numbers of column 3 closed, one of them flagged, the mines in column 4.
\<close>

definition blockedGame :: Game where
  "blockedGame = \<lparr>W = 5, H = 3, MINES = 2, gameOver = False, win = False, firstClick = False,
     explosion = False, explosionTimer = float_0_0, timerRunning = True, timeElapsed = float_0_0,
     field = boardOf
      [[(EmptyContent, OpenedState), (EmptyContent, OpenedState), (EmptyContent, ClosedState),
        (NumberContent 1, ClosedState), (MineContent, ClosedState)],
       [(EmptyContent, OpenedState), (EmptyContent, OpenedState), (EmptyContent, ClosedState),
        (NumberContent 2, FlaggedState), (NumberContent 2, ClosedState)],
       [(EmptyContent, OpenedState), (EmptyContent, OpenedState), (EmptyContent, ClosedState),
        (NumberContent 1, ClosedState), (MineContent, ClosedState)]]\<rparr>"

lemma blockedGame_run:
  "run [RightClick 2 0, RightClick 2 1, RightClick 2 2, RightClick 3 1,
        LeftClick [4, 0, 4, 2] 0 1, RightClick 2 0, RightClick 2 1, RightClick 2 2]
     freshGame = Some blockedGame"
  by code_simp

text \<open>
  \<open>spreadGame\<close>: \<open>blockedGame\<close> after a left click on (2, 1): column 2 and the two numbers
  of column 3 without a flag are opened.
\<close>

definition spreadGame :: Game where
  "spreadGame = \<lparr>W = 5, H = 3, MINES = 2, gameOver = False, win = False, firstClick = False,
     explosion = False, explosionTimer = float_0_0, timerRunning = True, timeElapsed = float_0_0,
     field = boardOf
      [[(EmptyContent, OpenedState), (EmptyContent, OpenedState), (EmptyContent, OpenedState),
        (NumberContent 1, OpenedState), (MineContent, ClosedState)],
       [(EmptyContent, OpenedState), (EmptyContent, OpenedState), (EmptyContent, OpenedState),
        (NumberContent 2, FlaggedState), (NumberContent 2, ClosedState)],
       [(EmptyContent, OpenedState), (EmptyContent, OpenedState), (EmptyContent, OpenedState),
        (NumberContent 1, OpenedState), (MineContent, ClosedState)]]\<rparr>"

text \<open>
  \<open>generatedGame\<close>: \<open>freshGame\<close> after the generation with the safe centre (1, 1) that
  drew 4, 0, 4, 2.
\<close>

definition generatedGame :: Game where
  "generatedGame = \<lparr>W = 5, H = 3, MINES = 2, gameOver = False, win = False, firstClick = True,
     explosion = False, explosionTimer = float_0_0, timerRunning = False, timeElapsed = float_0_0,
     field = boardOf
      [[(EmptyContent, ClosedState), (EmptyContent, ClosedState), (EmptyContent, ClosedState),
        (NumberContent 1, ClosedState), (MineContent, ClosedState)],
       [(EmptyContent, ClosedState), (EmptyContent, ClosedState), (EmptyContent, ClosedState),
        (NumberContent 2, ClosedState), (NumberContent 2, ClosedState)],
       [(EmptyContent, ClosedState), (EmptyContent, ClosedState), (EmptyContent, ClosedState),
        (NumberContent 1, ClosedState), (MineContent, ClosedState)]]\<rparr>"

lemma generatedGame_run: "generate [4, 0, 4, 2] freshGame 1 1 = Some generatedGame"
  by code_simp

text \<open>
  \<open>tinyGame\<close>: the session \<^verbatim>\<open>Game(3, 3, 1)\<close> as the constructor leaves it, and \<open>tinyWon\<close>:
  the same after a first left click on (0, 0) whose generation drew 2, 2 from \<^verbatim>\<open>rand\<close>:
  the mine at (2, 2), every other cell opened, the game won and the timer stopped. A
  first click on (1, 1) never returns: every cell of the field is in its safe zone.
\<close>

definition tinyGame :: Game where
  "tinyGame = \<lparr>W = 3, H = 3, MINES = 1, gameOver = False, win = False, firstClick = True,
     explosion = False, explosionTimer = float_0_0, timerRunning = False,
     timeElapsed = float_0_0, field = replicate 3 (replicate 3 makeInitialCell)\<rparr>"

definition tinyWon :: Game where
  "tinyWon = \<lparr>W = 3, H = 3, MINES = 1, gameOver = False, win = True, firstClick = False,
     explosion = False, explosionTimer = float_0_0, timerRunning = False,
     timeElapsed = float_0_0,
     field = boardOf
      [[(EmptyContent, OpenedState), (EmptyContent, OpenedState), (EmptyContent, OpenedState)],
       [(EmptyContent, OpenedState), (NumberContent 1, OpenedState),
        (NumberContent 1, OpenedState)],
       [(EmptyContent, OpenedState), (NumberContent 1, OpenedState),
        (MineContent, ClosedState)]]\<rparr>"

lemma tinyGame_run:
  "newGame 3 3 1 = Some tinyGame \<and> leftClickCell [2, 2] tinyGame 0 0 = Some tinyWon"
  by code_simp

lemma tinyGame_hits: "hits tinyGame rs 1 1 = []"
proof -
  have "\<bar>int a mod 3 - 1\<bar> \<le> 1" for a :: nat
    using pos_mod_bound[of 3 "int a"] pos_mod_sign[of 3 "int a"] by linarith
  then show ?thesis
    by (auto simp: hits_def picks_def filter_empty_conv tinyGame_def simp del: abs_le_iff)
qed

lemma tinyGame_centre: "leftClickCell rs tinyGame 1 1 = None"
proof -
  have "wfField tinyGame" "inRange tinyGame 1 1" "firstClick tinyGame" "\<not> gameOver tinyGame"
    "\<not> win tinyGame" "state (cellAt tinyGame 1 1) = ClosedState"
    by code_simp+
  from first_reveal_returns[OF this, of rs] show ?thesis
    by (simp add: tinyGame_hits) (simp add: tinyGame_def)
qed

section \<open>The claims\<close>

subsection \<open>Claim C1\<close>

text \<open>
  Claim C1, as the code has it: in a session whose board is generated and that is neither
  lost nor won, a left click on a closed, empty cell opens exactly the region of that
  cell: the cells reached from it through cells that are closed (not flagged and not
  already opened), without a mine, and empty but for the last of the path. Every other
  cell keeps its state and every cell its content; the cells of the region were closed
  and without a mine, so no mine and no flagged cell is opened; and a fill that visits
  the eight neighbours in any other order leaves the same field.
\<close>

theorem C1_reveal_empty:
  assumes "wfField g" "inRange g x y" "\<not> gameOver g" "\<not> win g" "\<not> firstClick g"
    and "state (cellAt g x y) = ClosedState" "isEmpty (content (cellAt g x y))"
  shows "\<exists>g'. leftClickCell rs g x y = Some g' \<and>
           (\<forall>a b. inRange g a b \<longrightarrow>
              cellAt g' a b = (if (a, b) \<in> region g x y
                               then (cellAt g a b)\<lparr>state := OpenedState\<rparr> else cellAt g a b)) \<and>
           (\<forall>p \<in> region g x y. passable g p) \<and>
           (\<forall>offs a b. set offs = set offsets \<longrightarrow> inRange g a b \<longrightarrow>
              cellAt (floodLoop offs (setState g x y OpenedState) [(x, y, offs)]) a b =
              cellAt g' a b)"
proof -
  let ?g2 = "setState g x y OpenedState"
  from assms(1,2) have inf: "inField g x y" by (simp add: inField_inRange)
  from assms(7) have nomine: "\<not> isMine (content (cellAt g x y))"
    by (cases "content (cellAt g x y)") simp_all
  with assms(2,6) have xy: "passable g (x, y)" by (simp add: passable_def cellOf_def)
  from assms(7) have e: "isEmpty (content (cellOf g (x, y)))" by (simp add: cellOf_def)
  have "leftClickCell rs g x y = Some (finishReveal g x y)"
    using assms inf by (simp add: leftClickCell_def revealFromState_later)
  also have "finishReveal g x y = checkWin (floodFill ?g2 x y)"
    using nomine assms(7) by (simp add: finishReveal_def Let_def)
  finally have lc: "leftClickCell rs g x y = Some (checkWin (floodFill ?g2 x y))" .
  have a: "cellAt (checkWin (floodFill ?g2 x y)) a b =
        (if (a, b) \<in> region g x y then (cellAt g a b)\<lparr>state := OpenedState\<rparr> else cellAt g a b)"
    if "inRange g a b" for a b
    using fill_from_click[OF assms(1) xy e refl that] by (simp add: floodFill_loop)
  have b: "\<forall>p \<in> region g x y. passable g p"
    using region_passable[OF xy] by blast
  have c: "cellAt (floodLoop offs ?g2 [(x, y, offs)]) a b = cellAt (checkWin (floodFill ?g2 x y)) a b"
    if "set offs = set offsets" "inRange g a b" for offs a b
    using fill_from_click[OF assms(1) xy e that] a[OF that(2)] by simp
  from lc a b c show ?thesis by blast
qed

text \<open>
  Claim C1 at \<open>twoClosed\<close> and its closed, empty cell (0, 1): the click gives \<open>oneClosed\<close>;
  the region holds (0, 1) and does not hold (2, 1). And at \<open>blockedGame\<close> and its closed,
  empty cell (2, 1): the click gives \<open>spreadGame\<close>; the region is column 2 and the two
  numbers (3, 0) and (3, 2); the flagged number (3, 1) stays flagged and the mine (4, 0)
  closed.
\<close>

theorem C1_reveal_empty_witness:
  "leftClickCell [] twoClosed 0 1 = Some oneClosed \<and>
   (0, 1) \<in> region twoClosed 0 1 \<and> (2, 1) \<notin> region twoClosed 0 1 \<and>
   run [RightClick 2 0, RightClick 2 1, RightClick 2 2, RightClick 3 1,
        LeftClick [4, 0, 4, 2] 0 1, RightClick 2 0, RightClick 2 1, RightClick 2 2]
     freshGame = Some blockedGame \<and>
   leftClickCell [] blockedGame 2 1 = Some spreadGame \<and>
   region blockedGame 2 1 = {(2, 0), (3, 0), (2, 1), (2, 2), (3, 2)} \<and>
   state (cellAt spreadGame 3 1) = FlaggedState \<and> state (cellAt spreadGame 4 0) = ClosedState"
proof -
  have h: "wfField twoClosed" "inRange twoClosed 0 1" "\<not> gameOver twoClosed" "\<not> win twoClosed"
    "\<not> firstClick twoClosed" "state (cellAt twoClosed 0 1) = ClosedState"
    "isEmpty (content (cellAt twoClosed 0 1))"
    by code_simp+
  have r: "leftClickCell [] twoClosed 0 1 = Some oneClosed" by code_simp
  have i: "inRange twoClosed 2 1" by code_simp
  have c: "cellAt oneClosed 2 1 \<noteq> (cellAt twoClosed 2 1)\<lparr>state := OpenedState\<rparr>" by code_simp
  from C1_reveal_empty[OF h, of "[]"] r
  have "\<forall>a b. inRange twoClosed a b \<longrightarrow>
          cellAt oneClosed a b = (if (a, b) \<in> region twoClosed 0 1
             then (cellAt twoClosed a b)\<lparr>state := OpenedState\<rparr> else cellAt twoClosed a b)"
    by simp
  with i have "cellAt oneClosed 2 1 = (if (2, 1) \<in> region twoClosed 0 1
             then (cellAt twoClosed 2 1)\<lparr>state := OpenedState\<rparr> else cellAt twoClosed 2 1)"
    by blast
  with c have one: "(2, 1) \<notin> region twoClosed 0 1" by (simp split: if_splits)
  have k: "wfField blockedGame" "inRange blockedGame 2 1" "\<not> gameOver blockedGame"
    "\<not> win blockedGame" "\<not> firstClick blockedGame"
    "state (cellAt blockedGame 2 1) = ClosedState" "isEmpty (content (cellAt blockedGame 2 1))"
    by code_simp+
  have s: "leftClickCell [] blockedGame 2 1 = Some spreadGame" by code_simp
  from C1_reveal_empty[OF k, of "[]"] s
  have cell: "\<And>a b. inRange blockedGame a b \<Longrightarrow>
          cellAt spreadGame a b = (if (a, b) \<in> region blockedGame 2 1
             then (cellAt blockedGame a b)\<lparr>state := OpenedState\<rparr> else cellAt blockedGame a b)"
    and pass: "\<And>p. p \<in> region blockedGame 2 1 \<Longrightarrow> passable blockedGame p"
    by auto
  have "p \<in> region blockedGame 2 1 \<longleftrightarrow>
        p \<in> set (filter (\<lambda>(a, b). cellAt spreadGame a b \<noteq> cellAt blockedGame a b)
                   (cells blockedGame))" for p
  proof (cases p)
    case (Pair a b)
    show ?thesis
    proof
      assume m: "p \<in> region blockedGame 2 1"
      from pass[OF m] have ir: "inRange blockedGame a b"
        and st: "state (cellAt blockedGame a b) = ClosedState"
        by (simp_all add: Pair passable_def cellOf_def)
      from cell[OF ir] m have "state (cellAt spreadGame a b) = OpenedState" by (simp add: Pair)
      with st have "cellAt spreadGame a b \<noteq> cellAt blockedGame a b" by auto
      with ir show "p \<in> set (filter (\<lambda>(a, b). cellAt spreadGame a b \<noteq> cellAt blockedGame a b)
                   (cells blockedGame))"
        by (simp add: Pair cells_set)
    next
      assume "p \<in> set (filter (\<lambda>(a, b). cellAt spreadGame a b \<noteq> cellAt blockedGame a b)
                   (cells blockedGame))"
      then have ir: "inRange blockedGame a b"
        and ne: "cellAt spreadGame a b \<noteq> cellAt blockedGame a b"
        by (simp_all add: Pair cells_set)
      from cell[OF ir] ne show "p \<in> region blockedGame 2 1" by (auto simp: Pair split: if_splits)
    qed
  qed
  then have "region blockedGame 2 1 =
      set (filter (\<lambda>(a, b). cellAt spreadGame a b \<noteq> cellAt blockedGame a b) (cells blockedGame))"
    by blast
  also have "filter (\<lambda>(a, b). cellAt spreadGame a b \<noteq> cellAt blockedGame a b) (cells blockedGame) =
      [(2, 0), (3, 0), (2, 1), (2, 2), (3, 2)]"
    by code_simp
  finally have two: "region blockedGame 2 1 = {(2, 0), (3, 0), (2, 1), (2, 2), (3, 2)}" by simp
  have three: "state (cellAt spreadGame 3 1) = FlaggedState"
    "state (cellAt spreadGame 4 0) = ClosedState"
    by code_simp+
  from r one blockedGame_run s two three show ?thesis by (simp add: region.start)
qed

text \<open>
  Claim C1 as stated fails at the reachable session \<open>twoClosed\<close>, whose board is generated
  and which is neither lost nor won. The closed, empty cell (0, 1) is adjacent to (1, 1),
  which is empty, not flagged and no mine; (1, 1) is adjacent to (2, 1), which is not
  flagged and no mine. So (2, 1) is reached from (0, 1) through an empty cell without
  crossing a mine or a flag; but (1, 1) is already opened, the fill does not go through
  it, and the click on (0, 1) leaves (2, 1) closed.
\<close>

theorem C1_counterexample:
  "reachable twoClosed \<and>
   \<not> gameOver twoClosed \<and> \<not> win twoClosed \<and> \<not> firstClick twoClosed \<and>
   state (cellAt twoClosed 0 1) = ClosedState \<and> isEmpty (content (cellAt twoClosed 0 1)) \<and>
   adjacent (0, 1) (1, 1) \<and> isEmpty (content (cellAt twoClosed 1 1)) \<and>
   \<not> isMine (content (cellAt twoClosed 1 1)) \<and> \<not> isFlagged (state (cellAt twoClosed 1 1)) \<and>
   adjacent (1, 1) (2, 1) \<and> isEmpty (content (cellAt twoClosed 2 1)) \<and>
   \<not> isMine (content (cellAt twoClosed 2 1)) \<and> \<not> isFlagged (state (cellAt twoClosed 2 1)) \<and>
   map_option (\<lambda>g. state (cellAt g 2 1)) (leftClickCell [] twoClosed 0 1) = Some ClosedState"
proof -
  have "\<not> gameOver twoClosed \<and> \<not> win twoClosed \<and> \<not> firstClick twoClosed \<and>
   state (cellAt twoClosed 0 1) = ClosedState \<and> isEmpty (content (cellAt twoClosed 0 1)) \<and>
   adjacent (0, 1) (1, 1) \<and> isEmpty (content (cellAt twoClosed 1 1)) \<and>
   \<not> isMine (content (cellAt twoClosed 1 1)) \<and> \<not> isFlagged (state (cellAt twoClosed 1 1)) \<and>
   adjacent (1, 1) (2, 1) \<and> isEmpty (content (cellAt twoClosed 2 1)) \<and>
   \<not> isMine (content (cellAt twoClosed 2 1)) \<and> \<not> isFlagged (state (cellAt twoClosed 2 1)) \<and>
   map_option (\<lambda>g. state (cellAt g 2 1)) (leftClickCell [] twoClosed 0 1) = Some ClosedState"
    by code_simp
  with twoClosed_reachable show ?thesis by simp
qed

subsection \<open>Claim C2\<close>

text \<open>
  Claim C2: for a field of \<open>H\<close> rows of \<open>W\<close> cells and a mine count that is not negative,
  every board \<open>generate\<close> returns has exactly \<open>MINES\<close> cells with a mine, no mine at
  Chebyshev distance at most one from the safe centre, and in every cell without a mine
  the number of mines among its neighbours in range, counted as a set.
\<close>

theorem C2_generate:
  assumes "wfField g" "0 \<le> MINES g" "generate rs g safeX safeY = Some g'"
  shows "int (card (minePositions g')) = MINES g' \<and>
         (\<forall>(a, b) \<in> minePositions g'. \<not> (\<bar>a - safeX\<bar> \<le> 1 \<and> \<bar>b - safeY\<bar> \<le> 1)) \<and>
         (\<forall>a b. inRange g' a b \<longrightarrow> \<not> isMine (content (cellAt g' a b)) \<longrightarrow>
            number (content (cellAt g' a b)) = int (card (neighbourMines g' (a, b))))"
proof -
  from generate_mines[OF assms(3,1)]
  obtain g1 where g1: "placeMines rs (clearContent g) safeX safeY 0 = Some g1"
    and wf1: "wfField g1" and wh1: "W g1 = W g" "H g1 = H g"
    and wh': "W g' = W g" "H g' = H g" and mn: "MINES g' = MINES g"
    and m: "minePositions g' = minePositions g1" and e: "minePositions (clearContent g) = {}"
    and c: "\<And>a b. inRange g a b \<Longrightarrow> content (cellAt g' a b) =
       (if isMine (content (cellAt g1 a b)) then content (cellAt g1 a b)
        else makeNumber (countMinesAround g1 a b))"
    by blast
  have m0: "MINES (clearContent g) = MINES g"
    using scalars_eqD(3)[OF clearContent_props(1)] .
  have r': "inRange g' a b = inRange g a b" for a b using wh' by (simp add: inRange_def)
  have "int (card (minePositions g1)) = int (card (minePositions (clearContent g))) + (MINES (clearContent g) - 0)"
    by (rule placeMines_count[OF g1]) (simp add: m0 assms(2))
  then have one: "int (card (minePositions g')) = MINES g'"
    by (simp add: m e m0 mn)
  have two: "\<not> (\<bar>a - safeX\<bar> \<le> 1 \<and> \<bar>b - safeY\<bar> \<le> 1)" if "(a, b) \<in> minePositions g'" for a b
    using generate_safe[OF assms(3,1) that] .
  have three: "number (content (cellAt g' a b)) = int (card (neighbourMines g' (a, b)))"
    if ab: "inRange g' a b" "\<not> isMine (content (cellAt g' a b))" for a b
  proof -
    from ab(1) have r: "inRange g a b" by (simp add: r')
    from c[OF r] ab(2) have "content (cellAt g' a b) = makeNumber (countMinesAround g1 a b)"
      by (simp split: if_splits)
    then have "number (content (cellAt g' a b)) = countMinesAround g1 a b"
      by (simp add: number_makeNumber countMinesAround_def)
    also have "\<dots> = int (card (neighbourMines g1 (a, b)))" by (rule countMinesAround_card)
    also have "neighbourMines g1 (a, b) = neighbourMines g' (a, b)"
      by (simp add: neighbourMines_def m)
    finally show ?thesis .
  qed
  from one two three show ?thesis by blast
qed

text \<open>
  Claim C2 at \<open>freshGame\<close>, the safe centre (1, 1) and the random values 4, 0, 4, 2: the
  generation returns \<open>generatedGame\<close>, with two mines, at (4, 0) and (4, 2).
\<close>

theorem C2_generate_witness:
  "generate [4, 0, 4, 2] freshGame 1 1 = Some generatedGame \<and>
   int (card (minePositions generatedGame)) = 2 \<and>
   (4, 0) \<in> minePositions generatedGame \<and> (4, 2) \<in> minePositions generatedGame"
proof -
  have h: "wfField freshGame" "0 \<le> MINES freshGame" by code_simp+
  have m: "MINES generatedGame = 2" by code_simp
  have "inRange generatedGame 4 0 \<and> isMine (content (cellAt generatedGame 4 0)) \<and>
        inRange generatedGame 4 2 \<and> isMine (content (cellAt generatedGame 4 2))"
    by code_simp
  then have p: "(4, 0) \<in> minePositions generatedGame" "(4, 2) \<in> minePositions generatedGame"
    by (simp_all add: minePositions_def)
  from C2_generate[OF h generatedGame_run] m p generatedGame_run show ?thesis by simp
qed

subsection \<open>Claim C3\<close>

text \<open>
  Claim C3 fails on the code at a won session: \<^verbatim>\<open>FlaggedState::onRightClick\<close> writes the
  closed state into the cell without the test of \<open>gameOver\<close> and \<open>win\<close> that
  \<^verbatim>\<open>toggleFlagFromState\<close> makes. In the reachable session \<open>wonGame\<close> the game is won and
  (4, 2) is flagged; a right click on it returns the cell to closed.
\<close>

theorem C3_right_click_after_win:
  "reachable wonGame \<and> win wonGame \<and> state (cellAt wonGame 4 2) = FlaggedState \<and>
   map_option (\<lambda>g. state (cellAt g 4 2)) (rightClickCell wonGame 4 2) = Some ClosedState"
proof -
  have "win wonGame \<and> state (cellAt wonGame 4 2) = FlaggedState \<and>
    map_option (\<lambda>g. state (cellAt g 4 2)) (rightClickCell wonGame 4 2) = Some ClosedState"
    by code_simp
  with wonGame_reachable show ?thesis by simp
qed

subsection \<open>Claim C4\<close>

text \<open>
  Claim C4: in a session that is not won, \<open>checkWin\<close> sets \<open>win\<close> and stops the timer if and
  only if every cell without a mine is opened, or exactly \<open>MINES\<close> cells are flagged and
  every flagged cell holds a mine; otherwise it changes nothing. In particular a flag on
  a cell without a mine only withholds the win by flags (\<open>gameOver\<close> is never touched), and
  the win by flags does not need the other cells to be opened.
\<close>

theorem C4_checkWin:
  assumes "\<not> win g"
  shows "win (checkWin g) = (allSafeOpen g \<or> winByFlags g) \<and>
         checkWin g = (if allSafeOpen g \<or> winByFlags g
                       then g\<lparr>win := True, timerRunning := False\<rparr> else g)"
  using assms by (simp add: checkWin_def Let_def checkWinOpen_eq checkWinFlags_eq)

text \<open>
  Claim C4 at \<open>oneFlagGame\<close> with the second mine flagged as well: the session is not won
  before the check, a cell without a mine is still closed, and the check wins by flags.
\<close>

theorem C4_checkWin_witness:
  "\<not> win (setState oneFlagGame 4 2 FlaggedState) \<and>
   checkWin (setState oneFlagGame 4 2 FlaggedState) = wonGame \<and>
   \<not> allSafeOpen (setState oneFlagGame 4 2 FlaggedState) \<and>
   winByFlags (setState oneFlagGame 4 2 FlaggedState)"
proof -
  let ?g = "setState oneFlagGame 4 2 FlaggedState"
  have nw: "\<not> win ?g" by code_simp
  have cw: "checkWin ?g = wonGame" by code_simp
  have "inRange ?g 4 1 \<and> \<not> isMine (content (cellAt ?g 4 1)) \<and> \<not> isOpen (state (cellAt ?g 4 1))"
    by code_simp
  then have nso: "\<not> allSafeOpen ?g" unfolding allSafeOpen_def by blast
  have "win wonGame" by code_simp
  with C4_checkWin[OF nw] cw nso have "winByFlags ?g" by simp
  with nw cw nso show ?thesis by simp
qed

subsection \<open>Claim C5\<close>

text \<open>
  Claim C5: in a session whose board is generated and that is neither lost nor won, a
  left click on a closed cell that holds a mine returns a session with \<open>gameOver\<close>, the
  timer stopped, the explosion flag set with a positive countdown, and every cell of the
  board opened.
\<close>

theorem C5_mine_loses:
  assumes "wfField g" "inRange g x y" "\<not> gameOver g" "\<not> win g" "\<not> firstClick g"
    and "state (cellAt g x y) = ClosedState" "isMine (content (cellAt g x y))"
  shows "\<exists>g'. leftClickCell rs g x y = Some g' \<and> gameOver g' \<and> \<not> win g' \<and>
           \<not> timerRunning g' \<and> explosion g' \<and> fless float_0_0 (explosionTimer g') \<and>
           (\<forall>x' y'. inRange g' x' y' \<longrightarrow> isOpen (state (cellAt g' x' y')))"
proof -
  from assms(1,2) have inf: "inField g x y" by (simp add: inField_inRange)
  let ?g2 = "setState g x y OpenedState"
  have mine2: "isMine (content (cellAt ?g2 x y))"
    using inf assms(7) by (simp add: cellAt_setState_same)
  have "leftClickCell rs g x y = Some (finishReveal g x y)"
    using assms inf by (simp add: leftClickCell_def revealFromState_later)
  also have "finishReveal g x y = triggerExplosion ?g2"
    using mine2 by (simp add: finishReveal_def Let_def)
  finally have lc: "leftClickCell rs g x y = Some (triggerExplosion ?g2)" .
  have wf2: "wfField ?g2" using assms(1) by simp
  note tp = triggerExplosion_props[OF wf2]
  have "\<forall>x' y'. inRange (triggerExplosion ?g2) x' y' \<longrightarrow>
          isOpen (state (cellAt (triggerExplosion ?g2) x' y'))"
    using tp(6,7) tp(8) by (simp add: inRange_def)
  with lc tp(1-5) assms(4) float_0_2_positive show ?thesis by simp
qed

text \<open>Claim C5 at \<open>midGame\<close> and its mine at (4, 0): the click gives \<open>lostGame\<close>.\<close>

theorem C5_mine_loses_witness:
  "leftClickCell [] midGame 4 0 = Some lostGame \<and> gameOver lostGame \<and> \<not> win lostGame \<and>
   \<not> timerRunning lostGame \<and> explosion lostGame \<and>
   fless float_0_0 (explosionTimer lostGame) \<and>
   list_all (\<lambda>(x, y). isOpen (state (cellAt lostGame x y))) (cells lostGame)"
proof -
  have h: "wfField midGame" "inRange midGame 4 0" "\<not> gameOver midGame" "\<not> win midGame"
    "\<not> firstClick midGame" "state (cellAt midGame 4 0) = ClosedState"
    "isMine (content (cellAt midGame 4 0))"
    by code_simp+
  have r: "leftClickCell [] midGame 4 0 = Some lostGame" by code_simp
  from C5_mine_loses[OF h, of "[]"] r
  have "gameOver lostGame \<and> \<not> win lostGame \<and> \<not> timerRunning lostGame \<and> explosion lostGame \<and>
    fless float_0_0 (explosionTimer lostGame) \<and>
    (\<forall>x y. inRange lostGame x y \<longrightarrow> isOpen (state (cellAt lostGame x y)))"
    by simp
  then show ?thesis using r by (simp add: list_all_iff cells_set)
qed

subsection \<open>Claim C6\<close>

text \<open>
  Claim C6, as the code has it: in a session that is neither lost nor won, when a right
  click on a closed cell does not win the game, a second right click on the same cell
  gives back the session as it was before the first: every cell and every session flag.
\<close>

theorem C6_toggle_twice:
  assumes "\<not> gameOver g" "\<not> win g" "inField g x y" "state (cellAt g x y) = ClosedState"
    and first: "rightClickCell g x y = Some g1" and nowin: "\<not> win g1"
  shows "rightClickCell g1 x y = Some g"
proof -
  from assms have "g1 = checkWin (setState g x y FlaggedState)"
    by (simp add: rightClickCell_def toggleFlagFromState_def)
  with nowin have g1: "g1 = setState g x y FlaggedState"
    using checkWin_no_win by simp
  have "state (cellAt g1 x y) = FlaggedState" "inField g1 x y"
    using assms(3) by (simp_all add: g1 cellAt_setState_same)
  then have "rightClickCell g1 x y = Some (setState g1 x y ClosedState)"
    by (simp add: rightClickCell_def)
  also have "setState g1 x y ClosedState = g"
    unfolding g1 using assms(3,4) by (rule setState_restore)
  finally show ?thesis .
qed

text \<open>
  Claim C6 at \<open>midGame\<close> and the closed cell (4, 1), which holds no mine: the flag does not
  win, and the second click restores \<open>midGame\<close>.
\<close>

theorem C6_toggle_twice_witness:
  "rightClickCell midGame 4 1 = Some (setState midGame 4 1 FlaggedState) \<and>
   \<not> win (setState midGame 4 1 FlaggedState) \<and>
   rightClickCell (setState midGame 4 1 FlaggedState) 4 1 = Some midGame"
proof -
  have h: "\<not> gameOver midGame" "\<not> win midGame" "inField midGame 4 1"
    "state (cellAt midGame 4 1) = ClosedState"
    "rightClickCell midGame 4 1 = Some (setState midGame 4 1 FlaggedState)"
    "\<not> win (setState midGame 4 1 FlaggedState)"
    by code_simp+
  from C6_toggle_twice[OF h] h(5,6) show ?thesis by simp
qed

text \<open>
  Claim C6 as stated fails when the first right click wins the game: in \<open>oneFlagGame\<close>,
  neither lost nor won, the cell (4, 2) is closed; two right clicks on it return it to
  closed, but the session is won and its timer stopped, which they were not before.
\<close>

theorem C6_counterexample:
  "reachable oneFlagGame \<and>
   \<not> gameOver oneFlagGame \<and> \<not> win oneFlagGame \<and> timerRunning oneFlagGame \<and>
   state (cellAt oneFlagGame 4 2) = ClosedState \<and>
   map_option (\<lambda>g. (state (cellAt g 4 2), win g, timerRunning g))
     (run [RightClick 4 2, RightClick 4 2] oneFlagGame) = Some (ClosedState, True, False)"
proof -
  have "\<not> gameOver oneFlagGame \<and> \<not> win oneFlagGame \<and> timerRunning oneFlagGame \<and>
   state (cellAt oneFlagGame 4 2) = ClosedState \<and>
   map_option (\<lambda>g. (state (cellAt g 4 2), win g, timerRunning g))
     (run [RightClick 4 2, RightClick 4 2] oneFlagGame) = Some (ClosedState, True, False)"
    by code_simp
  with oneFlagGame_reachable show ?thesis by simp
qed

subsection \<open>Claim C7\<close>

text \<open>
  Claim C7: in every session state reachable from a construction by left clicks, right
  clicks, ticks and resets, \<open>gameOver\<close> and \<open>win\<close> are never both true.
\<close>

theorem C7_never_both:
  assumes "reachable g"
  shows "\<not> (gameOver g \<and> win g)"
proof -
  from assms obtain w h mines es g0 where
    g0: "newGame w h mines = Some g0" and r: "run es g0 = Some g"
    unfolding reachable_def by blast
  from g0 have "consistent g0"
    by (auto simp: newGame_def resetField_def consistent_def split: if_splits)
  with r have "consistent g" by (rule consistent_run[rotated])
  then show ?thesis by (simp add: consistent_def)
qed

text \<open>
  Claim C7 at a reachable state: the lost session \<open>lostGame\<close> has \<open>gameOver\<close> and has not
  \<open>win\<close>.
\<close>

theorem C7_never_both_witness:
  "reachable lostGame \<and> gameOver lostGame \<and> \<not> win lostGame"
  using C7_never_both[OF lostGame_reachable] lostGame_reachable
  by (simp add: lostGame_def)

subsection \<open>Claim C8\<close>

text \<open>
  Claim C8, as the code has it: \<open>update g dt\<close> replaces the explosion countdown by the
  binary32 difference of the countdown and \<open>dt\<close> when the explosion flag is set, clears
  the flag exactly when the new countdown is below zero (strictly), replaces the elapsed
  time by the binary32 sum of the elapsed time and \<open>dt\<close> exactly when the timer is running
  and the game is neither over nor won, and changes no other member. The difference and
  the sum are rounded (\<open>fsub\<close>, \<open>fadd\<close>).
\<close>

theorem C8_update:
  "update g dt =
     g\<lparr>explosion := explosion g \<and> \<not> fless (fsub (explosionTimer g) dt) float_0_0,
       explosionTimer := (if explosion g then fsub (explosionTimer g) dt
                          else explosionTimer g),
       timeElapsed := (if timerRunning g \<and> \<not> gameOver g \<and> \<not> win g
                       then fadd (timeElapsed g) dt else timeElapsed g)\<rparr>"
  by (simp add: update_def Let_def)

text \<open>
  Claim C8 as stated fails in two places. Where the countdown reaches zero exactly: a
  tick of \<^verbatim>\<open>0.2f\<close> on the lost session, whose countdown is \<^verbatim>\<open>0.2f\<close>, brings the countdown
  to zero and leaves the explosion flag set. Where the sum is rounded: in the running
  session \<open>longGame\<close>, whose elapsed time is 16777216 seconds, a tick of one second leaves
  the elapsed time as it was.
\<close>

theorem C8_counterexample:
  "reachable lostGame \<and> explosion lostGame \<and> explosionTimer lostGame = float_0_2 \<and>
   explosionTimer (update lostGame float_0_2) = float_0_0 \<and>
   explosion (update lostGame float_0_2) \<and>
   reachable longGame \<and> timerRunning longGame \<and> \<not> gameOver longGame \<and> \<not> win longGame \<and>
   fless float_0_0 (literal32 1 1) \<and>
   timeElapsed (update longGame (literal32 1 1)) = timeElapsed longGame"
proof -
  have "explosion lostGame \<and> explosionTimer lostGame = float_0_2 \<and>
    explosionTimer (update lostGame float_0_2) = float_0_0 \<and>
    explosion (update lostGame float_0_2)"
    by (simp add: lostGame_def update_def Let_def float_0_0_eq float_0_2_eq float32_eval)
  moreover have "timerRunning longGame \<and> \<not> gameOver longGame \<and> \<not> win longGame \<and>
    fless float_0_0 (literal32 1 1) \<and>
    timeElapsed (update longGame (literal32 1 1)) = timeElapsed longGame"
    by (simp add: midGame_def longGame_def update_def Let_def float_0_0_eq float32_eval)
  ultimately show ?thesis using lostGame_reachable longGame_reachable by simp
qed

subsection \<open>Claim C9\<close>

text \<open>
  Claim C9, as the code has it: let \<open>g\<close> be a fresh or reset session, that is what
  \<^verbatim>\<open>resetField\<close> returned, after any right clicks and ticks. The first-click flag of \<open>g\<close>
  is set. A left click on a closed cell of \<open>g\<close> returns exactly when its draws hit at
  least \<open>MINES\<close> different positions outside the safe zone of the clicked cell, which
  some draws do when \<open>0 \<le> MINES < W * H - 9\<close>. When it returns, it has generated the
  board with the clicked cell as the safe centre: the contents after the click are those
  \<open>generate\<close> returns. The click clears the first-click flag, sets the elapsed time to
  zero and does not lose the game, and after it the timer is running exactly when the
  click has not won the game. After it, no sequence of clicks and ticks without a
  restart changes the content of any cell or sets the flag again.
\<close>

theorem C9_first_reveal_generates:
  assumes "resetField g0 = Some g00" "run pre g00 = Some g" "list_all quiet pre"
    and "inRange g x y" "state (cellAt g x y) = ClosedState"
  shows "firstClick g \<and>
         ((\<exists>g1. leftClickCell rs g x y = Some g1) \<longleftrightarrow>
            MINES g \<le> int (length (hits g rs x y))) \<and>
         (0 \<le> MINES g \<and> MINES g < W g * H g - 9 \<longrightarrow>
            (\<exists>rs' g1. leftClickCell rs' g x y = Some g1)) \<and>
         (\<forall>g1 es g2. leftClickCell rs g x y = Some g1 \<longrightarrow> run es g1 = Some g2 \<longrightarrow>
            Reset \<notin> set es \<longrightarrow>
            (\<exists>gen. generate rs g x y = Some gen \<and>
               (\<forall>a b. content (cellAt g1 a b) = content (cellAt gen a b)) \<and>
               (\<forall>a b. content (cellAt g2 a b) = content (cellAt gen a b))) \<and>
            \<not> firstClick g1 \<and> \<not> firstClick g2 \<and> timeElapsed g1 = float_0_0 \<and>
            \<not> gameOver g1 \<and> (timerRunning g1 \<longleftrightarrow> \<not> win g1))"
proof -
  have "pristine g" by (rule pristine_run[OF pristine_resetField[OF assms(1)] assms(2,3)])
  then have wf: "wfField g" and fl: "firstClick g" "\<not> gameOver g" "\<not> win g"
    and nt: "\<not> timerRunning g"
    by (simp_all add: pristine_def)
  note A = first_reveal_returns[OF wf assms(4) fl assms(5), of rs]
  have B: "\<exists>rs' g1. leftClickCell rs' g x y = Some g1"
    if "0 \<le> MINES g" "MINES g < W g * H g - 9"
    by (rule first_reveal_can_return[OF wf assms(4) fl assms(5) that])
  have C: "(\<exists>gen. generate rs g x y = Some gen \<and>
               (\<forall>a b. content (cellAt g1 a b) = content (cellAt gen a b)) \<and>
               (\<forall>a b. content (cellAt g2 a b) = content (cellAt gen a b))) \<and>
            \<not> firstClick g1 \<and> \<not> firstClick g2 \<and> timeElapsed g1 = float_0_0 \<and>
            \<not> gameOver g1 \<and> (timerRunning g1 \<longleftrightarrow> \<not> win g1)"
    if lc: "leftClickCell rs g x y = Some g1" and r: "run es g1 = Some g2"
      and nr: "Reset \<notin> set es" for g1 es g2
  proof -
    from wf assms(4) fl assms(5) lc obtain gen s where gen: "generate rs g x y = Some gen"
      and g1: "g1 = finishReveal s x y" and wfs: "wfField s" and s: "\<not> firstClick s"
      "\<not> gameOver s" "\<not> win s" "timerRunning s"
      and te: "\<not> timerRunning g \<Longrightarrow> timeElapsed s = float_0_0"
      and cs: "\<And>a b. cellAt s a b = cellAt gen a b"
      and nm: "\<not> isMine (content (cellAt gen x y))"
      by (rule first_reveal) (rule that; assumption)
    note k = finishReveal_keeps[OF wfs, of x y, folded g1]
    have c1: "content (cellAt g1 a b) = content (cellAt gen a b)" for a b
      using k(4)[of a b] by (simp add: cs)
    have f1: "\<not> firstClick g1" "timeElapsed g1 = float_0_0" using k(2,3) s(1) te nt by simp_all
    have go: "\<not> gameOver g1"
      unfolding g1 by (rule finishReveal_no_loss[OF s(2)]) (simp add: cs nm)
    have "timerRunning g1 \<longleftrightarrow> \<not> win g1 \<and> \<not> gameOver g1"
      unfolding g1 by (rule finishReveal_timer[OF wfs s(4,3,2)])
    with go have t1: "timerRunning g1 \<longleftrightarrow> \<not> win g1" by simp
    from later_run[OF k(1) f1(1) r nr]
    have "\<not> firstClick g2" "\<forall>a b. content (cellAt g2 a b) = content (cellAt gen a b)"
      by (simp_all add: c1)
    with gen c1 f1 go t1 show ?thesis by blast
  qed
  from fl(1) A B C show ?thesis by blast
qed

text \<open>
  Claim C9 at \<open>freshGame\<close>, which is also what a restart of \<open>lostGame\<close> gives and what two
  right clicks on (0, 0) and a tick leave as it is: the first click on (1, 1) with the
  draws 4, 0, 4, 2 hits the two positions (4, 0) and (4, 2) and gives \<open>midGame\<close>, a later
  right click gives \<open>oneFlagGame\<close>, and both hold the contents of \<open>generatedGame\<close>.
\<close>

theorem C9_first_reveal_generates_witness:
  "resetField lostGame = Some freshGame \<and>
   run [RightClick 0 0, Tick float_0_2, RightClick 0 0] freshGame = Some freshGame \<and>
   firstClick freshGame \<and>
   leftClickCell [4, 0, 4, 2] freshGame 1 1 = Some midGame \<and>
   hits freshGame [4, 0, 4, 2] 1 1 = [(4, 0), (4, 2)] \<and> MINES freshGame = 2 \<and>
   (\<exists>rs g1. leftClickCell rs freshGame 1 1 = Some g1) \<and>
   run [RightClick 4 0] midGame = Some oneFlagGame \<and>
   generate [4, 0, 4, 2] freshGame 1 1 = Some generatedGame \<and>
   (\<forall>a b. content (cellAt midGame a b) = content (cellAt generatedGame a b)) \<and>
   (\<forall>a b. content (cellAt oneFlagGame a b) = content (cellAt generatedGame a b)) \<and>
   \<not> firstClick midGame \<and> \<not> firstClick oneFlagGame \<and> timeElapsed midGame = float_0_0 \<and>
   \<not> gameOver midGame \<and> \<not> win midGame \<and> timerRunning midGame"
proof -
  have h: "resetField lostGame = Some freshGame"
    "run [RightClick 0 0, Tick float_0_2, RightClick 0 0] freshGame = Some freshGame"
    "list_all quiet [RightClick 0 0, Tick float_0_2, RightClick 0 0]"
    "inRange freshGame 1 1" "state (cellAt freshGame 1 1) = ClosedState"
    by code_simp+
  have lc: "leftClickCell [4, 0, 4, 2] freshGame 1 1 = Some midGame" by code_simp
  have hs: "hits freshGame [4, 0, 4, 2] 1 1 = [(4, 0), (4, 2)]" "MINES freshGame = 2"
    "0 \<le> MINES freshGame \<and> MINES freshGame < W freshGame * H freshGame - 9"
    "\<not> win midGame"
    by code_simp+
  have nr: "Reset \<notin> set [RightClick 4 0]" by simp
  note T = C9_first_reveal_generates[OF h, of "[4, 0, 4, 2]"]
  from T hs(3) have B: "\<exists>rs g1. leftClickCell rs freshGame 1 1 = Some g1" by blast
  from T lc oneFlagGame_run nr generatedGame_run
  have "firstClick freshGame \<and>
    (\<forall>a b. content (cellAt midGame a b) = content (cellAt generatedGame a b)) \<and>
    (\<forall>a b. content (cellAt oneFlagGame a b) = content (cellAt generatedGame a b)) \<and>
    \<not> firstClick midGame \<and> \<not> firstClick oneFlagGame \<and> timeElapsed midGame = float_0_0 \<and>
    \<not> gameOver midGame \<and> (timerRunning midGame \<longleftrightarrow> \<not> win midGame)"
    by (elim conjE allE[of _ midGame] allE[of _ "[RightClick 4 0]"] allE[of _ oneFlagGame]) simp
  with h(1,2) lc hs(1,2,4) B oneFlagGame_run generatedGame_run show ?thesis by simp
qed

text \<open>
  Claim C9 as stated fails in two places. In the fresh session \<open>tinyGame\<close> the first
  reveal on the centre (1, 1) generates nothing: whatever \<^verbatim>\<open>rand\<close> returns, the placement
  loop never ends and the click does not return. And the first reveal on (0, 0) with the
  draws 2, 2 wins the game at once, so that the timer is not running after it.
\<close>

theorem C9_counterexample:
  "newGame 3 3 1 = Some tinyGame \<and> firstClick tinyGame \<and>
   inRange tinyGame 1 1 \<and> state (cellAt tinyGame 1 1) = ClosedState \<and>
   (\<forall>rs. leftClickCell rs tinyGame 1 1 = None) \<and>
   leftClickCell [2, 2] tinyGame 0 0 = Some tinyWon \<and> win tinyWon \<and> \<not> timerRunning tinyWon"
proof -
  have "firstClick tinyGame \<and> inRange tinyGame 1 1 \<and>
    state (cellAt tinyGame 1 1) = ClosedState \<and> win tinyWon \<and> \<not> timerRunning tinyWon"
    by code_simp
  with tinyGame_run tinyGame_centre show ?thesis by simp
qed

subsection \<open>Claim C10\<close>

text \<open>
  Claim C10: in a fresh session on a field of \<open>H\<close> rows of \<open>W\<close> cells, the first accepted
  reveal, at a position in range, does not lose the game: the clicked cell holds no mine
  after the generation, \<open>gameOver\<close> stays false, and no cell the click opens holds a mine.
\<close>

theorem C10_first_reveal_safe:
  assumes "wfField g" "inRange g x y" "firstClick g" "\<not> gameOver g" "\<not> win g"
    "state (cellAt g x y) = ClosedState" "leftClickCell rs g x y = Some g'"
  shows "\<not> gameOver g' \<and> \<not> isMine (content (cellAt g' x y)) \<and>
         (\<forall>a b. inRange g a b \<longrightarrow> isOpen (state (cellAt g' a b)) \<longrightarrow>
            \<not> isOpen (state (cellAt g a b)) \<longrightarrow> \<not> isMine (content (cellAt g' a b)))"
proof -
  from assms obtain gen s where gen: "generate rs g x y = Some gen"
    and g': "g' = finishReveal s x y" and wfs: "wfField s" and go: "\<not> gameOver s"
    and wh: "W s = W g" "H s = H g"
    and cs: "\<And>a b. cellAt s a b = cellAt gen a b"
    and st: "\<And>a b. state (cellAt gen a b) = state (cellAt g a b)"
    and nm: "\<not> isMine (content (cellAt gen x y))"
    by (rule first_reveal) (rule that; assumption)
  let ?g2 = "setState s x y OpenedState"
  define r where "r = (if isEmpty (content (cellAt ?g2 x y)) then floodFill ?g2 x y else ?g2)"
  have wf2: "wfField ?g2" using wfs by simp
  have rs: "inRange s a b = inRange g a b" for a b using wh by (simp add: inRange_def)
  have inf: "inField s x y" using assms(2) wfs by (simp add: inField_inRange rs)
  have nm2: "\<not> isMine (content (cellAt ?g2 x y))" using nm by (simp add: cs)
  then have fr: "g' = checkWin r" by (simp add: g' finishReveal_def Let_def r_def)
  have gor: "\<not> gameOver r"
    using go scalars_eqD(4)[OF scalars_floodFill, of ?g2 x y] by (simp add: r_def)
  have one: "\<not> gameOver g'" using gor by (simp add: fr gameOver_checkWin)
  have cg': "content (cellAt g' a b) = content (cellAt gen a b)" for a b
    using finishReveal_keeps(4)[OF wfs, of x y a b] by (simp add: g' cs)
  have two: "\<not> isMine (content (cellAt g' x y))" using nm by (simp add: cg')
  have three: "\<not> isMine (content (cellAt g' a b))"
    if ab: "inRange g a b" "isOpen (state (cellAt g' a b))" "\<not> isOpen (state (cellAt g a b))"
    for a b
  proof -
    from ab(1) have nn: "0 \<le> a" "0 \<le> b" by (simp_all add: inRange_def)
    have s2: "state (cellAt ?g2 a b) = (if (a, b) = (x, y) then OpenedState else state (cellAt g a b))"
      using cellAt_setState[OF inf nn, of OpenedState] by (simp add: cs st)
    have "state (cellAt r a b) = state (cellAt ?g2 a b) \<or> passable ?g2 (a, b)"
    proof (cases "isEmpty (content (cellAt ?g2 x y))")
      case True
      then have "r = floodLoop offsets ?g2 [(x, y, offsets)]" by (simp add: r_def floodFill_loop)
      with floodLoop_sound[OF wf2 refl, of "(a, b)" "[(x, y, offsets)]"] ab(1)
      show ?thesis by (auto simp: rs cellOf_def dest: fillFrom_passable)
    next
      case False
      then show ?thesis by (simp add: r_def)
    qed
    then show ?thesis
    proof
      assume "state (cellAt r a b) = state (cellAt ?g2 a b)"
      with ab(2,3) s2 have "(a, b) = (x, y)" by (auto simp: fr split: if_splits)
      with two show ?thesis by simp
    next
      assume "passable ?g2 (a, b)"
      then have "\<not> isMine (content (cellAt s a b))" by (simp add: passable_def cellOf_def)
      then show ?thesis by (simp add: cg' cs)
    qed
  qed
  from one two three show ?thesis by blast
qed

text \<open>Claim C10 at \<open>freshGame\<close> and the first click on (1, 1), which gives \<open>midGame\<close>.\<close>

theorem C10_first_reveal_safe_witness:
  "leftClickCell [4, 0, 4, 2] freshGame 1 1 = Some midGame \<and> \<not> gameOver midGame \<and>
   \<not> isMine (content (cellAt midGame 1 1))"
proof -
  have h: "wfField freshGame" "inRange freshGame 1 1" "firstClick freshGame"
    "\<not> gameOver freshGame" "\<not> win freshGame"
    "state (cellAt freshGame 1 1) = ClosedState"
    "leftClickCell [4, 0, 4, 2] freshGame 1 1 = Some midGame"
    by code_simp+
  from C10_first_reveal_safe[OF h] h(7) show ?thesis by simp
qed

end
